theory Spec2Isabelle
  imports Main "HOL-Library.FSet" "HOL-Library.Finite_Map"
begin

section \<open>Data model\<close>

text \<open>
  The Go package \<^verbatim>\<open>set\<close> declares one type,
  \<^verbatim>\<open>type Set[V comparable] struct { m map[V]struct{}; mux sync.RWMutex }\<close>,
  and every method has a pointer receiver \<^verbatim>\<open>*Set[V]\<close>. Two operands of a method may
  be the same pointer, and a derived set is a new object, so sets live in an explicit
  heap: a pointer is an index into a list of objects, and \<^verbatim>\<open>New\<close> appends.

  The field \<^verbatim>\<open>m\<close> is a finite map to the unit type. Every object of the heap is one
  that \<^verbatim>\<open>New\<close> allocated (the fields are unexported), so its map is never \<^verbatim>\<open>nil\<close>.
  Keys are compared with HOL equality: the element type \<open>'v\<close> stands for the types
  the specification asks for, with an equality test and a stable hash (integers,
  strings, booleans, pointers, and structs and arrays of these). A floating-point
  NaN, which is not equal to itself, and an interface value whose dynamic type
  cannot be hashed are outside the model.

  Record fields are global constants, so the fields \<^verbatim>\<open>m\<close> and \<^verbatim>\<open>mux\<close> are \<open>set_m\<close> and
  \<open>set_mux\<close>; the method \<^verbatim>\<open>Union\<close> is \<open>Union_set\<close>, since \<open>Union\<close> is a constant of HOL.
  The builtin \<^verbatim>\<open>len\<close> and the method \<^verbatim>\<open>Len\<close> return Go's \<^verbatim>\<open>int\<close>; a count of map
  entries is never negative and cannot overflow, so the model returns a \<open>nat\<close>.

  The field \<^verbatim>\<open>mux\<close> is the state of a reader/writer lock as one goroutine sees it: the
  number of shared holders and whether there is an exclusive holder. An acquisition
  that the state does not admit never returns when no other goroutine releases the
  lock; it is the error \<open>Blocked\<close>. The methods are modelled as the calls of one
  goroutine; one step of another goroutine is added after them, for the case of a
  writer that arrives in the middle of a call.
\<close>

datatype error =
    Blocked
  | NilDeref
  | UnlockOfUnlocked
  | NotAnIterationOrder

record RWMutex =
  readers :: nat
  writer :: bool

record 'v Set_struct =
  set_m :: "('v, unit) fmap"
  set_mux :: RWMutex

type_synonym ref = nat
type_synonym 'v heap = "'v Set_struct list"
type_synonym ('v, 'a) prog = "'v heap \<Rightarrow> error + 'a \<times> 'v heap"

definition ret :: "'a \<Rightarrow> ('v, 'a) prog" where
  "ret x h = Inr (x, h)"

definition andThen :: "('v, 'a) prog \<Rightarrow> ('a \<Rightarrow> ('v, 'b) prog) \<Rightarrow> ('v, 'b) prog" where
  "andThen p f h = (case p h of Inl e \<Rightarrow> Inl e | Inr (x, h') \<Rightarrow> f x h')"

subsection \<open>sync.RWMutex\<close>

text \<open>
  \<^verbatim>\<open>RLock\<close> is granted unless there is an exclusive holder, and \<^verbatim>\<open>Lock\<close> only when
  nobody holds the lock. Releasing a lock that is not held is Go's fatal error
  \<^verbatim>\<open>sync: RUnlock of unlocked RWMutex\<close> (or \<^verbatim>\<open>Unlock\<close>). A method whose receiver
  is not a pointer into the heap dereferences a nil pointer when it reaches
  \<^verbatim>\<open>s.mux\<close> or \<^verbatim>\<open>s.m\<close>. An error ends the run: nothing in the package recovers
  from a panic, and a call that is blocked does not return.
\<close>

definition mux_RLock :: "RWMutex \<Rightarrow> error + RWMutex" where
  "mux_RLock l = (if writer l then Inl Blocked else Inr (l\<lparr>readers := Suc (readers l)\<rparr>))"

definition mux_RUnlock :: "RWMutex \<Rightarrow> error + RWMutex" where
  "mux_RUnlock l =
     (if readers l = 0 then Inl UnlockOfUnlocked else Inr (l\<lparr>readers := readers l - 1\<rparr>))"

definition mux_Lock :: "RWMutex \<Rightarrow> error + RWMutex" where
  "mux_Lock l = (if writer l \<or> 0 < readers l then Inl Blocked else Inr (l\<lparr>writer := True\<rparr>))"

definition mux_Unlock :: "RWMutex \<Rightarrow> error + RWMutex" where
  "mux_Unlock l = (if \<not> writer l then Inl UnlockOfUnlocked else Inr (l\<lparr>writer := False\<rparr>))"

definition on_mux :: "(RWMutex \<Rightarrow> error + RWMutex) \<Rightarrow> ref \<Rightarrow> ('v, unit) prog" where
  "on_mux f s h =
     (if s < length h
      then (case f (set_mux (h ! s)) of
              Inl e \<Rightarrow> Inl e
            | Inr l \<Rightarrow> Inr ((), h[s := (h ! s)\<lparr>set_mux := l\<rparr>]))
      else Inl NilDeref)"

definition RLock :: "ref \<Rightarrow> ('v, unit) prog" where
  "RLock s = on_mux mux_RLock s"

definition RUnlock :: "ref \<Rightarrow> ('v, unit) prog" where
  "RUnlock s = on_mux mux_RUnlock s"

definition Lock :: "ref \<Rightarrow> ('v, unit) prog" where
  "Lock s = on_mux mux_Lock s"

definition Unlock :: "ref \<Rightarrow> ('v, unit) prog" where
  "Unlock s = on_mux mux_Unlock s"

subsection \<open>The map field\<close>

text \<open>
  \<open>get_m s\<close> reads \<^verbatim>\<open>s.m\<close>, \<open>map_assign s x\<close> is \<^verbatim>\<open>s.m[x] = struct{}{}\<close>,
  \<open>map_delete s x\<close> is \<^verbatim>\<open>delete(s.m, x)\<close> and \<open>len\<close> is the builtin on maps.

  Go leaves the order of \<^verbatim>\<open>for k := range s.m\<close> unspecified, and it may differ
  from one loop to the next. Each loop over a map therefore takes the order \<open>ks\<close> in
  which the runtime yields the keys as an argument; \<open>range_m\<close> admits \<open>ks\<close> only if it
  enumerates the keys that the map holds when the loop starts, each once
  (\<open>range_of\<close>). For any other \<open>ks\<close> there is no such run of the program, which is
  the value \<open>NotAnIterationOrder\<close>; every map has an order that is admitted.
\<close>

definition len :: "('v, unit) fmap \<Rightarrow> nat" where
  "len mp = fcard (fmdom mp)"

definition get_m :: "ref \<Rightarrow> ('v, ('v, unit) fmap) prog" where
  "get_m s h = (if s < length h then Inr (set_m (h ! s), h) else Inl NilDeref)"

definition map_assign :: "ref \<Rightarrow> 'v \<Rightarrow> ('v, unit) prog" where
  "map_assign s x h =
     (if s < length h
      then Inr ((), h[s := (h ! s)\<lparr>set_m := fmupd x () (set_m (h ! s))\<rparr>])
      else Inl NilDeref)"

definition map_delete :: "ref \<Rightarrow> 'v \<Rightarrow> ('v, unit) prog" where
  "map_delete s x h =
     (if s < length h
      then Inr ((), h[s := (h ! s)\<lparr>set_m := fmdrop x (set_m (h ! s))\<rparr>])
      else Inl NilDeref)"

definition range_of :: "('v, unit) fmap \<Rightarrow> 'v list \<Rightarrow> bool" where
  "range_of mp ks \<longleftrightarrow> distinct ks \<and> fset_of_list ks = fmdom mp"

definition range_m :: "'v list \<Rightarrow> ref \<Rightarrow> ('v, 'v list) prog" where
  "range_m ks s =
     andThen (get_m s) (\<lambda>mp h.
       if range_of mp ks then Inr (ks, h) else Inl NotAnIterationOrder)"

section \<open>The methods of Set\<close>

subsection \<open>Has, Len, Insert, Delete, New\<close>

definition Has :: "ref \<Rightarrow> 'v \<Rightarrow> ('v, bool) prog" where
  "Has s v =
     andThen (RLock s) (\<lambda>_.
     andThen (get_m s) (\<lambda>mp.
     andThen (RUnlock s) (\<lambda>_.
     ret (fmlookup mp v \<noteq> None))))"

definition Len :: "ref \<Rightarrow> ('v, nat) prog" where
  "Len s =
     andThen (RLock s) (\<lambda>_.
     andThen (get_m s) (\<lambda>mp.
     andThen (RUnlock s) (\<lambda>_.
     ret (len mp))))"

primrec Insert_loop :: "ref \<Rightarrow> 'v list \<Rightarrow> ('v, unit) prog" where
  "Insert_loop s [] = ret ()"
| "Insert_loop s (x # v) = andThen (map_assign s x) (\<lambda>_. Insert_loop s v)"

definition Insert :: "ref \<Rightarrow> 'v list \<Rightarrow> ('v, unit) prog" where
  "Insert s v =
     andThen (Lock s) (\<lambda>_.
     andThen (Insert_loop s v) (\<lambda>_.
     Unlock s))"

primrec Delete_loop :: "ref \<Rightarrow> 'v list \<Rightarrow> ('v, unit) prog" where
  "Delete_loop s [] = ret ()"
| "Delete_loop s (x # v) = andThen (map_delete s x) (\<lambda>_. Delete_loop s v)"

definition Delete :: "ref \<Rightarrow> 'v list \<Rightarrow> ('v, unit) prog" where
  "Delete s v =
     andThen (Lock s) (\<lambda>_.
     andThen (Delete_loop s v) (\<lambda>_.
     Unlock s))"

definition alloc :: "('v, ref) prog" where
  "alloc h =
     Inr (length h, h @ [\<lparr>set_m = fmempty, set_mux = \<lparr>readers = 0, writer = False\<rparr>\<rparr>])"

definition New :: "'v list \<Rightarrow> ('v, ref) prog" where
  "New v =
     andThen alloc (\<lambda>s.
     andThen (Insert s v) (\<lambda>_.
     ret s))"

subsection \<open>HasAll, HasAny, Values, PopAny\<close>

primrec HasAll_loop :: "ref \<Rightarrow> 'v list \<Rightarrow> ('v, bool) prog" where
  "HasAll_loop s [] = ret True"
| "HasAll_loop s (x # v) =
     andThen (Has s x) (\<lambda>b. if \<not> b then ret False else HasAll_loop s v)"

definition HasAll :: "ref \<Rightarrow> 'v list \<Rightarrow> ('v, bool) prog" where
  "HasAll s v =
     andThen (RLock s) (\<lambda>_.
     andThen (HasAll_loop s v) (\<lambda>r.
     andThen (RUnlock s) (\<lambda>_.
     ret r)))"

primrec HasAny_loop :: "ref \<Rightarrow> 'v list \<Rightarrow> ('v, bool) prog" where
  "HasAny_loop s [] = ret False"
| "HasAny_loop s (x # v) =
     andThen (Has s x) (\<lambda>b. if b then ret True else HasAny_loop s v)"

definition HasAny :: "ref \<Rightarrow> 'v list \<Rightarrow> ('v, bool) prog" where
  "HasAny s v =
     andThen (RLock s) (\<lambda>_.
     andThen (HasAny_loop s v) (\<lambda>r.
     andThen (RUnlock s) (\<lambda>_.
     ret r)))"

definition Values :: "'v list \<Rightarrow> ref \<Rightarrow> ('v, 'v list) prog" where
  "Values ks s =
     andThen (RLock s) (\<lambda>_.
     andThen (range_m ks s) (\<lambda>ks.
     andThen (ret (foldl (\<lambda>v k. v @ [k]) [] ks)) (\<lambda>v.
     andThen (RUnlock s) (\<lambda>_.
     ret v))))"

text \<open>
  \<^verbatim>\<open>PopAny\<close> declares the named result \<^verbatim>\<open>v V\<close>, which Go initialises to the zero
  value of \<open>V\<close>; the model takes that value as its first argument. The loop body
  returns in its first iteration, so only the first key of the order is used.
\<close>

definition PopAny :: "'v \<Rightarrow> 'v list \<Rightarrow> ref \<Rightarrow> ('v, 'v \<times> bool) prog" where
  "PopAny v ks s =
     andThen (RLock s) (\<lambda>_.
     andThen (range_m ks s) (\<lambda>ks.
     andThen (case ks of
                [] \<Rightarrow> ret (v, False)
              | k # _ \<Rightarrow> andThen (map_delete s k) (\<lambda>_. ret (k, True))) (\<lambda>r.
     andThen (RUnlock s) (\<lambda>_.
     ret r))))"

subsection \<open>Clone, IsSuperset, Equal\<close>

definition Clone :: "'v list \<Rightarrow> ref \<Rightarrow> ('v, ref) prog" where
  "Clone ks s =
     andThen (RLock s) (\<lambda>_.
     andThen (New []) (\<lambda>t.
     andThen (Values ks s) (\<lambda>v.
     andThen (Insert t v) (\<lambda>_.
     andThen (RUnlock s) (\<lambda>_.
     ret t)))))"

primrec IsSuperset_loop :: "ref \<Rightarrow> 'v list \<Rightarrow> ('v, bool) prog" where
  "IsSuperset_loop s [] = ret True"
| "IsSuperset_loop s (k # ks) =
     andThen (Has s k) (\<lambda>b. if \<not> b then ret False else IsSuperset_loop s ks)"

definition IsSuperset :: "'v list \<Rightarrow> ref \<Rightarrow> ref \<Rightarrow> ('v, bool) prog" where
  "IsSuperset ks s t =
     andThen (RLock s) (\<lambda>_.
     andThen (RLock t) (\<lambda>_.
     andThen (range_m ks t) (\<lambda>ks.
     andThen (IsSuperset_loop s ks) (\<lambda>r.
     andThen (RUnlock t) (\<lambda>_.
     andThen (RUnlock s) (\<lambda>_.
     ret r))))))"

definition Equal :: "'v list \<Rightarrow> ref \<Rightarrow> ref \<Rightarrow> ('v, bool) prog" where
  "Equal ks s t =
     andThen (RLock s) (\<lambda>_.
     andThen (RLock t) (\<lambda>_.
     andThen (get_m s) (\<lambda>ms.
     andThen (get_m t) (\<lambda>mt.
     andThen (if len ms = len mt then IsSuperset ks s t else ret False) (\<lambda>r.
     andThen (RUnlock t) (\<lambda>_.
     andThen (RUnlock s) (\<lambda>_.
     ret r)))))))"

subsection \<open>Difference, Intersection, Union\<close>

primrec Difference_loop :: "ref \<Rightarrow> ref \<Rightarrow> 'v list \<Rightarrow> ('v, unit) prog" where
  "Difference_loop t u [] = ret ()"
| "Difference_loop t u (k # ks) =
     andThen (Has t k) (\<lambda>b.
     andThen (if \<not> b then Insert u [k] else ret ()) (\<lambda>_.
     Difference_loop t u ks))"

definition Difference :: "'v list \<Rightarrow> ref \<Rightarrow> ref \<Rightarrow> ('v, ref) prog" where
  "Difference ks s t =
     andThen (RLock s) (\<lambda>_.
     andThen (RLock t) (\<lambda>_.
     andThen (New []) (\<lambda>u.
     andThen (range_m ks s) (\<lambda>ks.
     andThen (Difference_loop t u ks) (\<lambda>_.
     andThen (RUnlock t) (\<lambda>_.
     andThen (RUnlock s) (\<lambda>_.
     ret u)))))))"

primrec Intersection_loop :: "ref \<Rightarrow> ref \<Rightarrow> 'v list \<Rightarrow> ('v, unit) prog" where
  "Intersection_loop other u [] = ret ()"
| "Intersection_loop other u (k # ks) =
     andThen (Has other k) (\<lambda>b.
     andThen (if b then Insert u [k] else ret ()) (\<lambda>_.
     Intersection_loop other u ks))"

definition Intersection :: "'v list \<Rightarrow> ref \<Rightarrow> ref \<Rightarrow> ('v, ref) prog" where
  "Intersection ks s t =
     andThen (RLock s) (\<lambda>_.
     andThen (RLock t) (\<lambda>_.
     andThen (New []) (\<lambda>u.
     andThen (Len s) (\<lambda>ls.
     andThen (Len t) (\<lambda>lt.
     andThen (ret (if ls < lt then (s, t) else (t, s))) (\<lambda>(walk, other).
     andThen (range_m ks walk) (\<lambda>ks.
     andThen (Intersection_loop other u ks) (\<lambda>_.
     andThen (RUnlock t) (\<lambda>_.
     andThen (RUnlock s) (\<lambda>_.
     ret u))))))))))"

primrec Union_loop :: "ref \<Rightarrow> 'v list \<Rightarrow> ('v, unit) prog" where
  "Union_loop u [] = ret ()"
| "Union_loop u (k # ks) = andThen (Insert u [k]) (\<lambda>_. Union_loop u ks)"

definition Union_set :: "'v list \<Rightarrow> 'v list \<Rightarrow> ref \<Rightarrow> ref \<Rightarrow> ('v, ref) prog" where
  "Union_set ks_s ks_t s t =
     andThen (Clone ks_s s) (\<lambda>u.
     andThen (RLock s) (\<lambda>_.
     andThen (RLock t) (\<lambda>_.
     andThen (range_m ks_t t) (\<lambda>ks.
     andThen (Union_loop u ks) (\<lambda>_.
     andThen (RUnlock t) (\<lambda>_.
     andThen (RUnlock s) (\<lambda>_.
     ret u)))))))"

section \<open>Callers and specification\<close>

subsection \<open>Loops that a caller writes\<close>

text \<open>
  \<^verbatim>\<open>for { v, ok := s.PopAny(); if !ok { break }; out = append(out, v) }\<close>:
  the caller pops until the found flag is false and collects what was returned.
  That the loop ends rests on what \<open>PopAny\<close> does to the heap, so it runs on fuel and
  \<open>None\<close> is "out of fuel". The order in which the runtime would enumerate a map is
  given by \<open>ord\<close>; every call sees a map it has not seen before, so a function of the
  map expresses every sequence of choices.
\<close>

fun drain ::
  "nat \<Rightarrow> 'v \<Rightarrow> (('v, unit) fmap \<Rightarrow> 'v list) \<Rightarrow> ref \<Rightarrow> 'v heap \<Rightarrow> (error + 'v list \<times> 'v heap) option"
where
  "drain 0 z ord s h = None"
| "drain (Suc n) z ord s h =
     (if s < length h
      then (case PopAny z (ord (set_m (h ! s))) s h of
              Inl e \<Rightarrow> Some (Inl e)
            | Inr ((v, ok), h') \<Rightarrow>
                if \<not> ok then Some (Inr ([], h'))
                else (case drain n z ord s h' of
                        None \<Rightarrow> None
                      | Some (Inl e) \<Rightarrow> Some (Inl e)
                      | Some (Inr (out, h'')) \<Rightarrow> Some (Inr (v # out, h''))))
      else Some (Inl NilDeref))"

text \<open>A sequence of \<^verbatim>\<open>Insert\<close> and \<^verbatim>\<open>Delete\<close> calls on one set.\<close>

datatype 'v mutation = InsertCall "'v list" | DeleteCall "'v list"

primrec mutate :: "ref \<Rightarrow> 'v mutation list \<Rightarrow> ('v, unit) prog" where
  "mutate c [] = ret ()"
| "mutate c (x # xs) =
     andThen (case x of InsertCall v \<Rightarrow> Insert c v | DeleteCall v \<Rightarrow> Delete c v) (\<lambda>_.
     mutate c xs)"

subsection \<open>Specification-level notions\<close>

text \<open>
  The naive intersection of the specification: the values present in both operands.
\<close>

definition naive_intersection :: "'v fset \<Rightarrow> 'v fset \<Rightarrow> 'v fset" where
  "naive_intersection A B = ffilter (\<lambda>x. x |\<in>| B) A"

subsection \<open>Heap predicates and heap transformers\<close>

text \<open>
  \<open>readable h s\<close>: \<open>s\<close> points into the heap and nobody holds its lock exclusively,
  so a shared acquisition is granted. \<open>unlocked h s\<close>: nobody holds the lock at all,
  so an exclusive acquisition is granted. \<open>members h s\<close> is the key set of \<^verbatim>\<open>s.m\<close>.
  \<open>walk_of\<close> and \<open>other_of\<close> name the values of the variables \<^verbatim>\<open>walk\<close> and
  \<^verbatim>\<open>other\<close> of \<^verbatim>\<open>Intersection\<close>. \<open>quiescent h\<close>: every lock of the heap is free.
  The remaining functions describe the heap after a step.
\<close>

definition readable :: "'v heap \<Rightarrow> ref \<Rightarrow> bool" where
  "readable h s \<longleftrightarrow> s < length h \<and> \<not> writer (set_mux (h ! s))"

definition unlocked :: "'v heap \<Rightarrow> ref \<Rightarrow> bool" where
  "unlocked h s \<longleftrightarrow> s < length h \<and> \<not> writer (set_mux (h ! s)) \<and> readers (set_mux (h ! s)) = 0"

definition members :: "'v heap \<Rightarrow> ref \<Rightarrow> 'v fset" where
  "members h s = fmdom (set_m (h ! s))"

definition with_reader :: "ref \<Rightarrow> 'v heap \<Rightarrow> 'v heap" where
  "with_reader s h = h[s := (h ! s)\<lparr>set_mux := (set_mux (h ! s))\<lparr>readers := Suc (readers (set_mux (h ! s)))\<rparr>\<rparr>]"

definition upd_m :: "(('v, unit) fmap \<Rightarrow> ('v, unit) fmap) \<Rightarrow> ref \<Rightarrow> 'v heap \<Rightarrow> 'v heap" where
  "upd_m f s h = h[s := (h ! s)\<lparr>set_m := f (set_m (h ! s))\<rparr>]"

definition with_writer :: "ref \<Rightarrow> 'v heap \<Rightarrow> 'v heap" where
  "with_writer s h = h[s := (h ! s)\<lparr>set_mux := (set_mux (h ! s))\<lparr>writer := True\<rparr>\<rparr>]"

definition fresh :: "('v, unit) fmap \<Rightarrow> 'v Set_struct" where
  "fresh mp = \<lparr>set_m = mp, set_mux = \<lparr>readers = 0, writer = False\<rparr>\<rparr>"

definition walk_of :: "'v heap \<Rightarrow> ref \<Rightarrow> ref \<Rightarrow> ref" where
  "walk_of h s t = (if fcard (members h s) < fcard (members h t) then s else t)"

definition other_of :: "'v heap \<Rightarrow> ref \<Rightarrow> ref \<Rightarrow> ref" where
  "other_of h s t = (if fcard (members h s) < fcard (members h t) then t else s)"

definition quiescent :: "'v heap \<Rightarrow> bool" where
  "quiescent h \<longleftrightarrow> (\<forall>r < length h. unlocked h r)"

subsection \<open>A writer of another goroutine\<close>

text \<open>
  The methods above are the calls of one goroutine. \<open>Lock_by_other s\<close> is one step of
  another goroutine: its call of \<^verbatim>\<open>s.mux.Lock()\<close>, the first statement of \<^verbatim>\<open>Insert\<close>
  and of \<^verbatim>\<open>Delete\<close>. If nobody holds the lock, that goroutine holds it from then on.
  If readers hold it, that goroutine waits for them to leave, and \<^verbatim>\<open>sync.RWMutex\<close>
  makes every later call of \<^verbatim>\<open>RLock\<close> wait until this writer has acquired and
  released the lock (its documentation adds that this prohibits recursive
  read-locking). Either way a later \<^verbatim>\<open>RLock\<close> is not granted, which is the flag
  \<open>writer\<close>; the step itself does not block the caller.

  \<open>Equal_queued q ks s t\<close> is \<^verbatim>\<open>s.Equal(t)\<close> where, if \<open>q\<close> is true, another goroutine's
  \<^verbatim>\<open>s.mux.Lock()\<close> arrives between the caller's \<^verbatim>\<open>s.mux.RLock()\<close> and its
  \<^verbatim>\<open>t.mux.RLock()\<close>, the first two statements of \<^verbatim>\<open>Equal\<close>. With \<open>q\<close> false it is
  \<open>Equal ks s t\<close>.
\<close>

definition Lock_by_other :: "ref \<Rightarrow> ('v, unit) prog" where
  "Lock_by_other s h =
     (if s < length h
      then Inr ((), h[s := (h ! s)\<lparr>set_mux := (set_mux (h ! s))\<lparr>writer := True\<rparr>\<rparr>])
      else Inl NilDeref)"

definition Equal_queued :: "bool \<Rightarrow> 'v list \<Rightarrow> ref \<Rightarrow> ref \<Rightarrow> ('v, bool) prog" where
  "Equal_queued q ks s t =
     andThen (RLock s) (\<lambda>_.
     andThen (if q then Lock_by_other s else ret ()) (\<lambda>_.
     andThen (RLock t) (\<lambda>_.
     andThen (get_m s) (\<lambda>ms.
     andThen (get_m t) (\<lambda>mt.
     andThen (if len ms = len mt then IsSuperset ks s t else ret False) (\<lambda>r.
     andThen (RUnlock t) (\<lambda>_.
     andThen (RUnlock s) (\<lambda>_.
     ret r))))))))"

subsection \<open>A concrete heap\<close>

text \<open>
  The two sets of the specification's example, \<open>s = {1, 2, 3}\<close> at pointer \<open>0\<close> and
  \<open>t = {1, 2, 4, 5}\<close> at pointer \<open>1\<close>, both with a lock that nobody holds.
\<close>

definition example_heap :: "int heap" where
  "example_heap =
     [fresh (fmupd 1 () (fmupd 2 () (fmupd 3 () fmempty))),
      fresh (fmupd 1 () (fmupd 2 () (fmupd 4 () (fmupd 5 () fmempty))))]"

section \<open>What each method computes\<close>

lemmas prog_defs = andThen_def ret_def

lemma length_rl [simp]: "length (with_reader s h) = length h"
  by (simp add: with_reader_def)
lemma length_upd_m [simp]: "length (upd_m f s h) = length h"
  by (simp add: upd_m_def)

lemma readable_rl [simp]: "readable (with_reader s h) r = readable h r"
  by (cases "r = s") (auto simp: readable_def with_reader_def)

lemma set_m_rl [simp]: "set_m (with_reader s h ! r) = set_m (h ! r)"
  by (cases "r = s"; cases "s < length h") (auto simp: with_reader_def list_update_beyond)

lemma members_rl [simp]: "members (with_reader s h) r = members h r"
  by (simp add: members_def)

lemma RLock_eq: "readable h s \<Longrightarrow> RLock s h = Inr ((), with_reader s h)"
  by (simp add: RLock_def on_mux_def mux_RLock_def readable_def with_reader_def)

lemma RUnlock_rl: "s < length h \<Longrightarrow> RUnlock s (with_reader s h) = Inr ((), h)"
  by (simp add: RUnlock_def on_mux_def mux_RUnlock_def with_reader_def)

lemma get_m_eq: "s < length h \<Longrightarrow> get_m s h = Inr (set_m (h ! s), h)"
  by (simp add: get_m_def)

lemma Has_eq: "readable h s \<Longrightarrow> Has s v h = Inr (v |\<in>| members h s, h)"
  by (simp add: Has_def RLock_eq get_m_eq RUnlock_rl readable_def[of h] members_def prog_defs fmlookup_dom_iff)

lemma Len_eq: "readable h s \<Longrightarrow> Len s h = Inr (fcard (members h s), h)"
  by (simp add: Len_def RLock_eq get_m_eq RUnlock_rl readable_def[of h] members_def prog_defs len_def)

lemma range_m_eq: "s < length h \<Longrightarrow> range_of (set_m (h ! s)) ks \<Longrightarrow> range_m ks s h = Inr (ks, h)"
  by (simp add: range_m_def get_m_eq prog_defs)

lemma HasAll_loop_eq: "readable h s \<Longrightarrow> HasAll_loop s v h = Inr (\<forall>x\<in>set v. x |\<in>| members h s, h)"
  by (induction v) (auto simp: Has_eq prog_defs)

lemma HasAny_loop_eq: "readable h s \<Longrightarrow> HasAny_loop s v h = Inr (\<exists>x\<in>set v. x |\<in>| members h s, h)"
  by (induction v) (auto simp: Has_eq prog_defs)

lemma IsSuperset_loop_eq: "readable h s \<Longrightarrow> IsSuperset_loop s v h = Inr (\<forall>x\<in>set v. x |\<in>| members h s, h)"
  by (induction v) (auto simp: Has_eq prog_defs)

lemma HasAll_eq: "readable h s \<Longrightarrow> HasAll s v h = Inr (\<forall>x\<in>set v. x |\<in>| members h s, h)"
  by (simp add: HasAll_def RLock_eq HasAll_loop_eq RUnlock_rl readable_def[of h] prog_defs)

lemma HasAny_eq: "readable h s \<Longrightarrow> HasAny s v h = Inr (\<exists>x\<in>set v. x |\<in>| members h s, h)"
  by (simp add: HasAny_def RLock_eq HasAny_loop_eq RUnlock_rl readable_def[of h] prog_defs)

lemma foldl_snoc: "foldl (\<lambda>v k. v @ [k]) acc ks = acc @ ks"
  by (induction ks arbitrary: acc) auto

lemma Values_eq: "readable h s \<Longrightarrow> range_of (set_m (h ! s)) ks \<Longrightarrow> Values ks s h = Inr (ks, h)"
  by (simp add: Values_def RLock_eq range_m_eq RUnlock_rl readable_def[of h] prog_defs foldl_snoc)

lemma range_of_set: "range_of mp ks \<Longrightarrow> set ks = fset (fmdom mp)"
  by (auto simp: range_of_def fset_of_list.rep_eq[symmetric])

lemma IsSuperset_eq:
  "readable h s \<Longrightarrow> readable h t \<Longrightarrow> range_of (set_m (h ! t)) ks \<Longrightarrow>
   IsSuperset ks s t h = Inr (members h t |\<subseteq>| members h s, h)"
  apply (simp add: IsSuperset_def RLock_eq range_m_eq IsSuperset_loop_eq RUnlock_rl readable_def[of h] prog_defs)
  apply (auto simp: members_def dest!: range_of_set)
  done

lemma Equal_eq:
  "readable h s \<Longrightarrow> readable h t \<Longrightarrow> range_of (set_m (h ! t)) ks \<Longrightarrow>
   Equal ks s t h = Inr (fcard (members h s) = fcard (members h t) \<and> members h t |\<subseteq>| members h s, h)"
  by (simp add: Equal_def RLock_eq get_m_eq IsSuperset_eq RUnlock_rl readable_def[of h] prog_defs len_def members_def)

lemma length_wl [simp]: "length (with_writer s h) = length h"
  by (simp add: with_writer_def)

lemma Lock_eq: "unlocked h s \<Longrightarrow> Lock s h = Inr ((), with_writer s h)"
  by (simp add: Lock_def on_mux_def mux_Lock_def unlocked_def with_writer_def)

lemma writer_False_id: "\<not> writer l \<Longrightarrow> l\<lparr>writer := False\<rparr> = l"
  by (cases l) simp

lemma Unlock_wl: "unlocked h s \<Longrightarrow> Unlock s (upd_m f s (with_writer s h)) = Inr ((), upd_m f s h)"
  by (simp add: Unlock_def on_mux_def mux_Unlock_def unlocked_def with_writer_def upd_m_def writer_False_id)

lemma upd_m_upd_m [simp]: "upd_m g s (upd_m f s h) = upd_m (\<lambda>mp. g (f mp)) s h"
  by (cases "s < length h") (simp_all add: upd_m_def list_update_beyond)

lemma upd_m_id: "upd_m (\<lambda>mp. mp) s h = h"
  by (simp add: upd_m_def)

lemma Insert_loop_eq:
  "s < length h \<Longrightarrow> Insert_loop s v h = Inr ((), upd_m (fold (\<lambda>x. fmupd x ()) v) s h)"
proof (induction v arbitrary: h)
  case Nil
  then show ?case by (simp add: prog_defs upd_m_id)
next
  case (Cons x v)
  have "map_assign s x h = Inr ((), upd_m (fmupd x ()) s h)"
    using Cons.prems by (simp add: map_assign_def upd_m_def)
  then show ?case using Cons by (simp add: prog_defs)
qed

lemma Delete_loop_eq:
  "s < length h \<Longrightarrow> Delete_loop s v h = Inr ((), upd_m (fold fmdrop v) s h)"
proof (induction v arbitrary: h)
  case Nil
  then show ?case by (simp add: prog_defs upd_m_id)
next
  case (Cons x v)
  have "map_delete s x h = Inr ((), upd_m (fmdrop x) s h)"
    using Cons.prems by (simp add: map_delete_def upd_m_def)
  then show ?case using Cons by (simp add: prog_defs)
qed

lemma Insert_eq:
  "unlocked h s \<Longrightarrow> Insert s v h = Inr ((), upd_m (fold (\<lambda>x. fmupd x ()) v) s h)"
  by (simp add: Insert_def Lock_eq Insert_loop_eq Unlock_wl prog_defs unlocked_def[of h])

lemma Delete_eq:
  "unlocked h s \<Longrightarrow> Delete s v h = Inr ((), upd_m (fold fmdrop v) s h)"
  by (simp add: Delete_def Lock_eq Delete_loop_eq Unlock_wl prog_defs unlocked_def[of h])

lemma set_m_fresh [simp]: "set_m (fresh mp) = mp"
  by (simp add: fresh_def)

lemma readable_append [simp]: "r < length h \<Longrightarrow> readable (h @ xs) r = readable h r"
  by (simp add: readable_def nth_append)

lemma members_append [simp]: "r < length h \<Longrightarrow> members (h @ xs) r = members h r"
  by (simp add: members_def nth_append)

lemma members_fresh [simp]: "length h = n \<Longrightarrow> members (h @ [fresh mp]) n = fmdom mp"
  by (auto simp: members_def)

lemma unlocked_fresh [simp]: "length h = n \<Longrightarrow> unlocked (h @ [fresh mp]) n"
  by (auto simp: unlocked_def fresh_def)

lemma readable_fresh [simp]: "length h = n \<Longrightarrow> readable (h @ [fresh mp]) n"
  by (auto simp: readable_def fresh_def)

lemma rl_append [simp]: "s < length h \<Longrightarrow> with_reader s (h @ xs) = with_reader s h @ xs"
  by (simp add: with_reader_def nth_append list_update_append)

lemma upd_m_fresh [simp]: "length h = n \<Longrightarrow> upd_m f n (h @ [fresh mp]) = h @ [fresh (f mp)]"
  by (auto simp: upd_m_def fresh_def)

lemma RUnlock_rl_append: "s < length h \<Longrightarrow> RUnlock s (with_reader s h @ xs) = Inr ((), h @ xs)"
  using RUnlock_rl [of s "h @ xs"] by simp

lemma New_eq: "New v h = Inr (length h, h @ [fresh (fold (\<lambda>x. fmupd x ()) v fmempty)])"
proof -
  have "alloc h = Inr (length h, h @ [fresh fmempty])"
    by (simp add: alloc_def fresh_def)
  then show ?thesis
    by (simp add: New_def prog_defs Insert_eq)
qed

lemma fmdom_fold_fmupd: "fmdom (fold (\<lambda>x. fmupd x ()) v mp) = fmdom mp |\<union>| fset_of_list v"
  by (induction v arbitrary: mp) auto

lemma fmdom_fold_fmdrop: "fmdom (fold fmdrop v mp) = fmdom mp |-| fset_of_list v"
  by (induction v arbitrary: mp) auto

lemma unit_fmap_eqI: "fmdom a = fmdom b \<Longrightarrow> a = (b :: ('v, unit) fmap)"
proof (rule fmap_ext)
  fix x assume "fmdom a = fmdom b"
  then have "(x |\<in>| fmdom a) = (x |\<in>| fmdom b)" by simp
  then show "fmlookup a x = fmlookup b x"
    by (cases "fmlookup a x"; cases "fmlookup b x") (auto simp: fmlookup_dom_iff)
qed

lemma Clone_eq:
  assumes "readable h s" and "range_of (set_m (h ! s)) ks"
  shows "Clone ks s h = Inr (length h, h @ [fresh (set_m (h ! s))])"
proof -
  have s: "s < length h" using assms(1) by (simp add: readable_def)
  have "fold (\<lambda>x. fmupd x ()) ks fmempty = set_m (h ! s)"
    using assms(2) by (intro unit_fmap_eqI) (simp add: fmdom_fold_fmupd range_of_def)
  moreover have "Values ks s (with_reader s h @ [fresh fmempty]) = Inr (ks, with_reader s h @ [fresh fmempty])"
    using assms s by (intro Values_eq) (simp_all add: nth_append)
  ultimately show ?thesis
    using assms s by (simp add: Clone_def prog_defs RLock_eq New_eq Insert_eq RUnlock_rl_append)
qed

lemma upd_m_rl: "upd_m f s (with_reader s h) = with_reader s (upd_m f s h)"
  by (cases "s < length h"; cases "h ! s") (simp_all add: upd_m_def with_reader_def list_update_beyond)

lemma PopAny_Nil:
  assumes "readable h s" and "range_of (set_m (h ! s)) []"
  shows "PopAny z [] s h = Inr ((z, False), h)"
  using assms by (simp add: PopAny_def prog_defs RLock_eq range_m_eq RUnlock_rl readable_def[of h])

lemma PopAny_Cons:
  assumes "readable h s" and "range_of (set_m (h ! s)) (k # ks)"
  shows "PopAny z (k # ks) s h = Inr ((k, True), upd_m (fmdrop k) s h)"
proof -
  have s: "s < length h" using assms(1) by (simp add: readable_def)
  have "map_delete s k (with_reader s h) = Inr ((), with_reader s (upd_m (fmdrop k) s h))"
    using s by (simp add: map_delete_def upd_m_rl[symmetric]) (simp add: upd_m_def)
  then show ?thesis
    using assms s by (simp add: PopAny_def prog_defs RLock_eq range_m_eq RUnlock_rl)
qed

lemma set_mux_upd_m [simp]: "set_mux (upd_m f u h ! r) = set_mux (h ! r)"
  by (cases "r = u"; cases "u < length h") (auto simp: upd_m_def list_update_beyond)

lemma readable_upd_m [simp]: "readable (upd_m f u h) r = readable h r"
  by (simp add: readable_def)

lemma unlocked_upd_m [simp]: "unlocked (upd_m f u h) r = unlocked h r"
  by (simp add: unlocked_def)

lemma members_upd_m_other [simp]: "r \<noteq> u \<Longrightarrow> members (upd_m f u h) r = members h r"
  by (simp add: members_def upd_m_def)

lemma Difference_loop_eq:
  assumes "readable h t" and "unlocked h u" and "t \<noteq> u"
  shows "Difference_loop t u ks h =
    Inr ((), upd_m (fold (\<lambda>k mp. if k |\<in>| members h t then mp else fmupd k () mp) ks) u h)"
  using assms
proof (induction ks arbitrary: h)
  case Nil
  then show ?case by (simp add: prog_defs upd_m_id)
next
  case (Cons k ks)
  show ?case
  proof (cases "k |\<in>| members h t")
    case True
    then show ?thesis using Cons by (simp add: prog_defs Has_eq)
  next
    case False
    then show ?thesis using Cons by (simp add: prog_defs Has_eq Insert_eq)
  qed
qed

lemma Intersection_loop_eq:
  assumes "readable h t" and "unlocked h u" and "t \<noteq> u"
  shows "Intersection_loop t u ks h =
    Inr ((), upd_m (fold (\<lambda>k mp. if k |\<in>| members h t then fmupd k () mp else mp) ks) u h)"
  using assms
proof (induction ks arbitrary: h)
  case Nil
  then show ?case by (simp add: prog_defs upd_m_id)
next
  case (Cons k ks)
  show ?case
  proof (cases "k |\<in>| members h t")
    case True
    then show ?thesis using Cons by (simp add: prog_defs Has_eq Insert_eq)
  next
    case False
    then show ?thesis using Cons by (simp add: prog_defs Has_eq)
  qed
qed

lemma Union_loop_eq:
  assumes "unlocked h u"
  shows "Union_loop u ks h = Inr ((), upd_m (fold (\<lambda>k. fmupd k ()) ks) u h)"
  using assms
proof (induction ks arbitrary: h)
  case Nil
  then show ?case by (simp add: prog_defs upd_m_id)
next
  case (Cons k ks)
  then show ?case by (simp add: prog_defs Insert_eq)
qed

lemma fmdom_fold_keep:
  "fmdom (fold (\<lambda>k mp. if P k then fmupd k () mp else mp) ks mp) = fmdom mp |\<union>| ffilter P (fset_of_list ks)"
  by (induction ks arbitrary: mp) auto

lemma Difference_eq:
  assumes "readable h s" and "readable h t" and "range_of (set_m (h ! s)) ks"
  shows "Difference ks s t h = Inr (length h,
    h @ [fresh (fold (\<lambda>k mp. if k |\<in>| members h t then mp else fmupd k () mp) ks fmempty)])"
proof -
  have s: "s < length h" and t: "t < length h"
    using assms by (simp_all add: readable_def)
  let ?h2 = "with_reader t (with_reader s h)"
  have loop: "Difference_loop t (length h) ks (?h2 @ [fresh fmempty]) =
      Inr ((), ?h2 @ [fresh (fold (\<lambda>k mp. if k |\<in>| members h t then mp else fmupd k () mp) ks fmempty)])"
    using assms s t by (subst Difference_loop_eq) simp_all
  have rng: "range_m ks s (?h2 @ [fresh fmempty]) = Inr (ks, ?h2 @ [fresh fmempty])"
    using assms s by (intro range_m_eq) (simp_all add: nth_append)
  show ?thesis
    using assms s t loop rng
    by (simp add: Difference_def prog_defs RLock_eq New_eq RUnlock_rl_append)
qed

lemma Intersection_eq:
  assumes "readable h s" and "readable h t" and "range_of (set_m (h ! walk_of h s t)) ks"
  shows "Intersection ks s t h = Inr (length h,
    h @ [fresh (fold (\<lambda>k mp. if k |\<in>| members h (other_of h s t) then fmupd k () mp else mp) ks fmempty)])"
proof -
  have s: "s < length h" and t: "t < length h"
    using assms by (simp_all add: readable_def)
  let ?h2 = "with_reader t (with_reader s h)"
  let ?w = "walk_of h s t" and ?o = "other_of h s t"
  have w: "?w < length h" and o: "?o < length h" and ro: "readable h ?o"
    using assms s t by (simp_all add: walk_of_def other_of_def)
  have loop: "Intersection_loop ?o (length h) ks (?h2 @ [fresh fmempty]) =
      Inr ((), ?h2 @ [fresh (fold (\<lambda>k mp. if k |\<in>| members h ?o then fmupd k () mp else mp) ks fmempty)])"
    using o ro by (subst Intersection_loop_eq) simp_all
  have rng: "range_m ks ?w (?h2 @ [fresh fmempty]) = Inr (ks, ?h2 @ [fresh fmempty])"
    using assms w by (intro range_m_eq) (simp_all add: nth_append)
  have ls: "Len s (?h2 @ [fresh fmempty]) = Inr (fcard (members h s), ?h2 @ [fresh fmempty])"
    using assms s by (subst Len_eq) simp_all
  have lt: "Len t (?h2 @ [fresh fmempty]) = Inr (fcard (members h t), ?h2 @ [fresh fmempty])"
    using assms t by (subst Len_eq) simp_all
  show ?thesis
  proof (cases "fcard (members h s) < fcard (members h t)")
    case True
    then have "?w = s" "?o = t" by (simp_all add: walk_of_def other_of_def)
    with True show ?thesis
      using assms s t loop rng ls lt
      by (simp add: Intersection_def prog_defs RLock_eq New_eq RUnlock_rl_append)
  next
    case False
    then have "?w = t" "?o = s" by (simp_all add: walk_of_def other_of_def)
    with False show ?thesis
      using assms s t loop rng ls lt
      by (simp add: Intersection_def prog_defs RLock_eq New_eq RUnlock_rl_append)
  qed
qed

lemma Union_set_eq:
  assumes "readable h s" and "readable h t"
    and "range_of (set_m (h ! s)) ks_s" and "range_of (set_m (h ! t)) ks_t"
  shows "Union_set ks_s ks_t s t h = Inr (length h,
    h @ [fresh (fold (\<lambda>k. fmupd k ()) ks_t (set_m (h ! s)))])"
proof -
  have s: "s < length h" and t: "t < length h"
    using assms by (simp_all add: readable_def)
  let ?h2 = "with_reader t (with_reader s h)"
  let ?c = "fresh (set_m (h ! s))"
  have loop: "Union_loop (length h) ks_t (?h2 @ [?c]) =
      Inr ((), ?h2 @ [fresh (fold (\<lambda>k. fmupd k ()) ks_t (set_m (h ! s)))])"
    by (subst Union_loop_eq) simp_all
  have rng: "range_m ks_t t (?h2 @ [?c]) = Inr (ks_t, ?h2 @ [?c])"
    using assms t by (intro range_m_eq) (simp_all add: nth_append)
  show ?thesis
    using assms s t loop rng
    by (simp add: Union_set_def prog_defs Clone_eq RLock_eq RUnlock_rl_append)
qed

lemma unlocked_readable: "unlocked h s \<Longrightarrow> readable h s"
  by (simp add: unlocked_def readable_def)

lemma set_m_upd_m_same [simp]:
  "s < length h \<Longrightarrow> set_m (upd_m f s h ! s) = f (set_m (h ! s))"
  by (simp add: upd_m_def)

lemma members_upd_m_same:
  "s < length h \<Longrightarrow> members (upd_m f s h) s = fmdom (f (set_m (h ! s)))"
  by (simp add: members_def)

lemma nth_upd_m_other: "r \<noteq> s \<Longrightarrow> upd_m f s h ! r = h ! r"
  by (simp add: upd_m_def)

lemma Has_True_iff: "readable h s \<Longrightarrow> Has s x h = Inr (True, h) \<longleftrightarrow> x |\<in>| members h s"
  by (simp add: Has_eq)

lemma Has_False_iff: "readable h s \<Longrightarrow> Has s x h = Inr (False, h) \<longleftrightarrow> x |\<notin>| members h s"
  by (simp add: Has_eq)

lemma fmdom_fold_drop:
  "fmdom (fold (\<lambda>k mp. if P k then mp else fmupd k () mp) ks mp)
     = fmdom mp |\<union>| ffilter (\<lambda>k. \<not> P k) (fset_of_list ks)"
  by (induction ks arbitrary: mp) auto

lemma example_unlocked:
  "unlocked example_heap 0" "unlocked example_heap 1" "unlocked example_heap (Suc 0)"
  by (simp_all add: example_heap_def unlocked_def fresh_def)

lemma example_readable:
  "readable example_heap 0" "readable example_heap 1" "readable example_heap (Suc 0)"
  by (simp_all add: example_heap_def readable_def fresh_def)

lemma example_members:
  "members example_heap 0 = {|1, 2, 3|}" "members example_heap 1 = {|1, 2, 4, 5|}"
  "members example_heap (Suc 0) = {|1, 2, 4, 5|}"
  by (simp_all add: example_heap_def members_def)

lemma range_m_bad:
  "s < length h \<Longrightarrow> \<not> range_of (set_m (h ! s)) ks \<Longrightarrow> range_m ks s h = Inl NotAnIterationOrder"
  by (simp add: range_m_def get_m_eq prog_defs)

lemma range_of_exists: "\<exists>ks. range_of mp ks"
proof -
  obtain ks where "set ks = fset (fmdom mp)" and "distinct ks"
    using finite_distinct_list [of "fset (fmdom mp)"] by auto
  then have "fset_of_list ks = fmdom mp"
    by (simp add: fset_of_list.rep_eq fset_inject [symmetric])
  with \<open>distinct ks\<close> show ?thesis
    by (auto simp: range_of_def)
qed

lemma Intersection_bad_order:
  assumes "readable h s" and "readable h t" and "\<not> range_of (set_m (h ! walk_of h s t)) ks"
  shows "Intersection ks s t h = Inl NotAnIterationOrder"
proof -
  have s: "s < length h" and t: "t < length h"
    using assms by (simp_all add: readable_def)
  let ?h2 = "with_reader t (with_reader s h)"
  let ?w = "walk_of h s t"
  have w: "?w < length h"
    using s t by (simp add: walk_of_def)
  have rng: "range_m ks ?w (?h2 @ [fresh fmempty]) = Inl NotAnIterationOrder"
    using assms w by (intro range_m_bad) (simp_all add: nth_append)
  have ls: "Len s (?h2 @ [fresh fmempty]) = Inr (fcard (members h s), ?h2 @ [fresh fmempty])"
    using assms s by (subst Len_eq) simp_all
  have lt: "Len t (?h2 @ [fresh fmempty]) = Inr (fcard (members h t), ?h2 @ [fresh fmempty])"
    using assms t by (subst Len_eq) simp_all
  show ?thesis
  proof (cases "fcard (members h s) < fcard (members h t)")
    case True
    then have "?w = s" by (simp add: walk_of_def)
    with True show ?thesis
      using assms s t rng ls lt
      by (simp add: Intersection_def prog_defs RLock_eq New_eq)
  next
    case False
    then have "?w = t" by (simp add: walk_of_def)
    with False show ?thesis
      using assms s t rng ls lt
      by (simp add: Intersection_def prog_defs RLock_eq New_eq)
  qed
qed

lemma nth_append_fresh [simp]: "length h = n \<Longrightarrow> (h @ [x]) ! n = x"
  by auto

lemma example_heap_length: "0 < length example_heap" "Suc 0 < length example_heap"
  by (simp_all add: example_heap_def)

lemma mutate_eq:
  "unlocked h c \<Longrightarrow> \<exists>f. mutate c ops h = Inr ((), upd_m f c h)"
proof (induction ops arbitrary: h)
  case Nil
  have "mutate c [] h = Inr ((), upd_m (\<lambda>mp. mp) c h)"
    by (simp add: prog_defs upd_m_id)
  then show ?case by blast
next
  case (Cons x ops)
  obtain g where g: "(case x of InsertCall v \<Rightarrow> Insert c v | DeleteCall v \<Rightarrow> Delete c v) h
      = Inr ((), upd_m g c h)"
    using Cons.prems by (cases x) (auto simp: Insert_eq Delete_eq)
  have "unlocked (upd_m g c h) c"
    using Cons.prems by simp
  from Cons.IH [OF this] obtain f where "mutate c ops (upd_m g c h) = Inr ((), upd_m f c (upd_m g c h))"
    by blast
  with g have "mutate c (x # ops) h = Inr ((), upd_m (\<lambda>mp. f (g mp)) c h)"
    by (simp add: prog_defs)
  then show ?case by blast
qed

lemma drain_total:
  assumes "\<forall>mp. range_of mp (ord mp)"
  shows "readable h s \<Longrightarrow> fcard (members h s) < n \<Longrightarrow>
    \<exists>out h'. drain n z ord s h = Some (Inr (out, h')) \<and> distinct out \<and>
      fset_of_list out = members h s \<and> readable h' s \<and> members h' s = {||}"
proof (induction n arbitrary: h)
  case 0
  then show ?case by simp
next
  case (Suc n)
  have s: "s < length h" using Suc.prems(1) by (simp add: readable_def)
  have r: "range_of (set_m (h ! s)) (ord (set_m (h ! s)))"
    using assms by simp
  show ?case
  proof (cases "ord (set_m (h ! s))")
    case Nil
    with r have "members h s = {||}"
      by (simp add: range_of_def members_def)
    moreover have "PopAny z [] s h = Inr ((z, False), h)"
      using Suc.prems(1) r Nil by (simp add: PopAny_Nil)
    ultimately show ?thesis
      using s Nil Suc.prems(1) by simp
  next
    case (Cons k ks)
    let ?h1 = "upd_m (fmdrop k) s h"
    have pop: "PopAny z (k # ks) s h = Inr ((k, True), ?h1)"
      using Suc.prems(1) r Cons by (simp add: PopAny_Cons)
    have k: "k |\<in>| members h s"
      using r Cons by (auto simp: range_of_def members_def)
    have m1: "members ?h1 s = members h s |-| {|k|}"
      using s by (simp add: members_def)
    have "fcard (members ?h1 s) < n"
      using Suc.prems(2) fcard_fminus1_less [OF k] unfolding m1 by simp
    moreover have "readable ?h1 s"
      using Suc.prems(1) by simp
    ultimately obtain out h' where
      d: "drain n z ord s ?h1 = Some (Inr (out, h'))" and "distinct out"
      and o: "fset_of_list out = members ?h1 s" and "readable h' s" and "members h' s = {||}"
      using Suc.IH by blast
    have "k \<notin> set out"
      using o unfolding m1 by (auto simp: fset_of_list_elem [symmetric])
    moreover have "fset_of_list (k # out) = members h s"
      using o k unfolding m1 by auto
    moreover have "drain (Suc n) z ord s h = Some (Inr (k # out, h'))"
      using s Cons pop d by simp
    ultimately show ?thesis
      using \<open>distinct out\<close> \<open>readable h' s\<close> \<open>members h' s = {||}\<close> by auto
  qed
qed

subsection \<open>The locks between calls\<close>

text \<open>
  Every method releases what it acquired, and \<open>New\<close> allocates a free lock. A heap
  built from the empty heap by calls of the methods, one after the other, is therefore
  \<open>quiescent\<close>: every lock in it is free, so every set in it is \<open>readable\<close> and
  \<open>unlocked\<close>.
\<close>

lemma quiescent_Nil: "quiescent []"
  by (simp add: quiescent_def)

lemma quiescent_readable: "quiescent h \<Longrightarrow> s < length h \<Longrightarrow> readable h s"
  by (simp add: quiescent_def unlocked_readable)

lemma quiescent_upd_m: "quiescent h \<Longrightarrow> quiescent (upd_m f s h)"
  by (simp add: quiescent_def)

lemma quiescent_fresh: "quiescent h \<Longrightarrow> quiescent (h @ [fresh mp])"
  by (auto simp: quiescent_def unlocked_def nth_append fresh_def)

lemma New_quiescent:
  "quiescent h \<Longrightarrow> \<exists>u h'. New v h = Inr (u, h') \<and> quiescent h'"
  by (simp add: New_eq quiescent_fresh)

lemma Insert_quiescent:
  "quiescent h \<Longrightarrow> s < length h \<Longrightarrow> \<exists>h'. Insert s v h = Inr ((), h') \<and> quiescent h'"
  by (simp add: Insert_eq quiescent_upd_m quiescent_def)

lemma Delete_quiescent:
  "quiescent h \<Longrightarrow> s < length h \<Longrightarrow> \<exists>h'. Delete s v h = Inr ((), h') \<and> quiescent h'"
  by (simp add: Delete_eq quiescent_upd_m quiescent_def)

lemma PopAny_quiescent:
  assumes "quiescent h" and "s < length h" and "range_of (set_m (h ! s)) ks"
  shows "\<exists>r h'. PopAny z ks s h = Inr (r, h') \<and> quiescent h'"
  using assms
  by (cases ks) (auto simp: PopAny_Nil PopAny_Cons quiescent_readable quiescent_upd_m)

lemma Clone_quiescent:
  assumes "quiescent h" and "s < length h" and "range_of (set_m (h ! s)) ks"
  shows "\<exists>u h'. Clone ks s h = Inr (u, h') \<and> quiescent h'"
  using assms by (simp add: Clone_eq quiescent_readable quiescent_fresh)

lemma Difference_quiescent:
  assumes "quiescent h" and "s < length h" and "t < length h" and "range_of (set_m (h ! s)) ks"
  shows "\<exists>u h'. Difference ks s t h = Inr (u, h') \<and> quiescent h'"
  using assms by (simp add: Difference_eq quiescent_readable quiescent_fresh)

lemma Intersection_quiescent:
  assumes "quiescent h" and "s < length h" and "t < length h"
    and "range_of (set_m (h ! walk_of h s t)) ks"
  shows "\<exists>u h'. Intersection ks s t h = Inr (u, h') \<and> quiescent h'"
  using assms by (simp add: Intersection_eq quiescent_readable quiescent_fresh)

lemma Union_set_quiescent:
  assumes "quiescent h" and "s < length h" and "t < length h"
    and "range_of (set_m (h ! s)) ks_s" and "range_of (set_m (h ! t)) ks_t"
  shows "\<exists>u h'. Union_set ks_s ks_t s t h = Inr (u, h') \<and> quiescent h'"
  using assms by (simp add: Union_set_eq quiescent_readable quiescent_fresh)

subsection \<open>Operands that are the same object\<close>

text \<open>
  When the receiver and the argument of a two-operand method are the same pointer,
  the method takes the lock of that one object in shared mode several times over
  (\<^verbatim>\<open>s.mux.RLock(); t.mux.RLock()\<close> and the nested calls of \<open>Has\<close>, \<open>Len\<close>,
  \<open>Values\<close> and \<open>IsSuperset\<close>), and in exclusive mode only the lock of the set it has
  just allocated. With no exclusive holder at the start, no acquisition is refused,
  the call returns, and the object of \<open>s\<close>, its lock included, is as before.
  This is a statement about one goroutine. When another goroutine calls
  \<^verbatim>\<open>Lock\<close> between two of these acquisitions, the second one is not granted
  (\<open>Equal_queued\<close>).
\<close>

lemma aliased_operands_return:
  assumes "readable h s" and "range_of (set_m (h ! s)) ks" and "range_of (set_m (h ! s)) ks'"
  shows "(\<exists>u h'. Union_set ks ks' s s h = Inr (u, h') \<and> h' ! s = h ! s \<and>
            members h' u = members h s) \<and>
         (\<exists>u h'. Intersection ks s s h = Inr (u, h') \<and> h' ! s = h ! s \<and>
            members h' u = members h s) \<and>
         (\<exists>u h'. Difference ks s s h = Inr (u, h') \<and> h' ! s = h ! s \<and>
            members h' u = {||}) \<and>
         Equal ks s s h = Inr (True, h) \<and>
         IsSuperset ks s s h = Inr (True, h)"
proof -
  have s: "s < length h"
    using assms(1) by (simp add: readable_def)
  have ks: "fset_of_list ks = members h s" "fset_of_list ks' = members h s"
    using assms(2,3) by (simp_all add: range_of_def members_def)
  have w: "walk_of h s s = s" "other_of h s s = s"
    by (simp_all add: walk_of_def other_of_def)
  have "Union_set ks ks' s s h =
      Inr (length h, h @ [fresh (fold (\<lambda>k. fmupd k ()) ks' (set_m (h ! s)))])"
    using assms(1) assms(1) assms(2,3) by (rule Union_set_eq)
  moreover have "members (h @ [fresh (fold (\<lambda>k. fmupd k ()) ks' (set_m (h ! s)))]) (length h)
      = members h s"
    by (simp add: fmdom_fold_fmupd ks) (simp add: members_def)
  ultimately have 1: "\<exists>u h'. Union_set ks ks' s s h = Inr (u, h') \<and> h' ! s = h ! s \<and>
      members h' u = members h s"
    using s by (auto simp: nth_append)
  have "Intersection ks s s h = Inr (length h,
      h @ [fresh (fold (\<lambda>k mp. if k |\<in>| members h s then fmupd k () mp else mp) ks fmempty)])"
    using Intersection_eq [OF assms(1) assms(1)] assms(2) by (simp add: w)
  moreover have "members (h @ [fresh (fold (\<lambda>k mp. if k |\<in>| members h s then fmupd k () mp else mp) ks fmempty)]) (length h)
      = members h s"
    by (auto simp: fmdom_fold_keep ks)
  ultimately have 2: "\<exists>u h'. Intersection ks s s h = Inr (u, h') \<and> h' ! s = h ! s \<and>
      members h' u = members h s"
    using s by (auto simp: nth_append)
  have "Difference ks s s h = Inr (length h,
      h @ [fresh (fold (\<lambda>k mp. if k |\<in>| members h s then mp else fmupd k () mp) ks fmempty)])"
    using assms(1) assms(1) assms(2) by (rule Difference_eq)
  moreover have "members (h @ [fresh (fold (\<lambda>k mp. if k |\<in>| members h s then mp else fmupd k () mp) ks fmempty)]) (length h)
      = {||}"
    by (auto simp: fmdom_fold_drop ks)
  ultimately have 3: "\<exists>u h'. Difference ks s s h = Inr (u, h') \<and> h' ! s = h ! s \<and>
      members h' u = {||}"
    using s by (auto simp: nth_append)
  have 4: "Equal ks s s h = Inr (True, h)"
    using Equal_eq [OF assms(1) assms(1) assms(2)] by simp
  have 5: "IsSuperset ks s s h = Inr (True, h)"
    using IsSuperset_eq [OF assms(1) assms(1) assms(2)] by simp
  from 1 2 3 4 5 show ?thesis by blast
qed

lemma andThen_ret: "andThen (ret x) f = f x"
  by (rule ext) (simp add: prog_defs)

lemma Equal_queued_False: "Equal_queued False ks s t = Equal ks s t"
  by (simp add: Equal_queued_def Equal_def andThen_ret)

lemma Lock_by_other_eq: "s < length h \<Longrightarrow> Lock_by_other s h = Inr ((), with_writer s h)"
  by (simp add: Lock_by_other_def with_writer_def)

lemma RLock_with_writer: "s < length h \<Longrightarrow> RLock s (with_writer s h) = Inl Blocked"
  by (simp add: RLock_def on_mux_def mux_RLock_def with_writer_def)

lemma Insert_with_reader: "s < length h \<Longrightarrow> Insert s v (with_reader s h) = Inl Blocked"
  by (simp add: Insert_def Lock_def on_mux_def mux_Lock_def with_reader_def prog_defs)

section \<open>The claims\<close>

text \<open>
  Claim C1. For all sets \<open>s\<close> and \<open>t\<close> that nobody holds exclusively and every order
  \<open>ks\<close> in which the runtime may enumerate \<open>t.m\<close>, \<open>s.Equal(t)\<close> returns, leaves the heap
  as it was, and its result \<open>b\<close> is true if and only if \<open>s.Len()\<close> and \<open>t.Len()\<close> return
  the same count and every member of \<open>t\<close> is a member of \<open>s\<close>; and \<open>b\<close> is true if and
  only if \<open>s\<close> and \<open>t\<close> have exactly the same members (\<open>Has\<close> agrees on every value,
  the two maps are equal).
\<close>

theorem Equal_decides_set_equality:
  assumes "readable h s" and "readable h t" and "range_of (set_m (h ! t)) ks"
  shows "\<exists>b. Equal ks s t h = Inr (b, h) \<and>
     (b \<longleftrightarrow> (\<exists>n. Len s h = Inr (n, h) \<and> Len t h = Inr (n, h)) \<and>
            (\<forall>x. Has t x h = Inr (True, h) \<longrightarrow> Has s x h = Inr (True, h))) \<and>
     (b \<longleftrightarrow> (\<forall>x. Has s x h = Has t x h)) \<and>
     (b \<longleftrightarrow> set_m (h ! s) = set_m (h ! t))"
proof -
  let ?b = "fcard (members h s) = fcard (members h t) \<and> members h t |\<subseteq>| members h s"
  have eq: "Equal ks s t h = Inr (?b, h)"
    using assms by (rule Equal_eq)
  have same: "?b \<longleftrightarrow> members h s = members h t"
    using fcard_seteq [of "members h t" "members h s"] by auto
  have 1: "?b \<longleftrightarrow> (\<exists>n. Len s h = Inr (n, h) \<and> Len t h = Inr (n, h)) \<and>
            (\<forall>x. Has t x h = Inr (True, h) \<longrightarrow> Has s x h = Inr (True, h))"
    using assms(1,2) by (auto simp: Len_eq Has_eq)
  have 2: "?b \<longleftrightarrow> (\<forall>x. Has s x h = Has t x h)"
    unfolding same using assms(1,2) by (auto simp: Has_eq)
  have 3: "?b \<longleftrightarrow> set_m (h ! s) = set_m (h ! t)"
    unfolding same by (auto simp: members_def intro: unit_fmap_eqI)
  from eq 1 2 3 show ?thesis by blast
qed

theorem Equal_decides_set_equality_witness:
  "readable example_heap 0 \<and> readable example_heap 1 \<and>
   range_of (set_m (example_heap ! 1)) [5, 4, 2, 1] \<and>
   range_of (set_m (example_heap ! 0)) [2, 3, 1] \<and>
   Equal [5, 4, 2, 1] 0 1 example_heap = Inr (False, example_heap) \<and>
   Equal [2, 3, 1] 0 0 example_heap = Inr (True, example_heap)"
proof -
  have a: "readable example_heap 0" and b: "readable example_heap 1"
    by (rule example_readable)+
  have c: "range_of (set_m (example_heap ! 1)) [5, 4, 2, 1]"
    by (auto simp: example_heap_def range_of_def)
  have d: "range_of (set_m (example_heap ! 0)) [2, 3, 1]"
    by (auto simp: example_heap_def range_of_def)
  have ne: "set_m (example_heap ! 0) \<noteq> set_m (example_heap ! 1)"
  proof
    assume "set_m (example_heap ! 0) = set_m (example_heap ! 1)"
    then have "fmlookup (set_m (example_heap ! 0)) 3 = fmlookup (set_m (example_heap ! 1)) 3"
      by simp
    then show False by (simp add: example_heap_def)
  qed
  from Equal_decides_set_equality [OF a b c] ne
  have "Equal [5, 4, 2, 1] 0 1 example_heap = Inr (False, example_heap)" by auto
  moreover from Equal_decides_set_equality [OF a a d]
  have "Equal [2, 3, 1] 0 0 example_heap = Inr (True, example_heap)" by auto
  ultimately show ?thesis using a b c d by blast
qed

text \<open>
  Claim C2. \<open>Intersection\<close> iterates the operand with the smaller member count and its
  result is the naive intersection. For all sets \<open>s\<close> and \<open>t\<close> that nobody holds
  exclusively: the operand \<open>walk_of h s t\<close> that the loop ranges over is \<open>s\<close> or \<open>t\<close>,
  the other one is \<open>other_of h s t\<close>, and the \<open>Len\<close> of the first is at most the \<open>Len\<close>
  of the second; for every order \<open>ks\<close> that enumerates the map of \<open>walk_of h s t\<close> the
  call returns a set whose members are the iterated keys that the other operand
  contains, and that set is \<open>naive_intersection\<close> of the members of \<open>s\<close> and of \<open>t\<close>,
  whichever operand was iterated; an order that does not enumerate the map of
  \<open>walk_of h s t\<close> is not one the loop can take.
\<close>

theorem Intersection_refines_naive:
  assumes "readable h s" and "readable h t"
  shows "(range_of (set_m (h ! walk_of h s t)) ks \<longrightarrow>
           (\<exists>u h' n m. Intersection ks s t h = Inr (u, h') \<and>
              Len (walk_of h s t) h = Inr (n, h) \<and> Len (other_of h s t) h = Inr (m, h) \<and>
              n \<le> m \<and>
              members h' u = ffilter (\<lambda>k. k |\<in>| members h (other_of h s t)) (fset_of_list ks) \<and>
              members h' u = naive_intersection (members h s) (members h t))) \<and>
         (\<not> range_of (set_m (h ! walk_of h s t)) ks \<longrightarrow>
            Intersection ks s t h = Inl NotAnIterationOrder) \<and>
         (walk_of h s t = s \<and> other_of h s t = t \<or> walk_of h s t = t \<and> other_of h s t = s)"
proof (intro conjI impI)
  assume r: "range_of (set_m (h ! walk_of h s t)) ks"
  let ?w = "walk_of h s t" and ?o = "other_of h s t"
  let ?mp = "fold (\<lambda>k mp. if k |\<in>| members h ?o then fmupd k () mp else mp) ks fmempty"
  let ?h' = "h @ [fresh ?mp]"
  have rw: "readable h ?w" and ro: "readable h ?o"
    using assms by (simp_all add: walk_of_def other_of_def)
  have ks: "fset_of_list ks = members h ?w"
    using r by (simp add: range_of_def members_def)
  have m: "members ?h' (length h) = ffilter (\<lambda>k. k |\<in>| members h ?o) (fset_of_list ks)"
    by (simp add: fmdom_fold_keep)
  have "members h ?w |\<inter>| members h ?o = members h s |\<inter>| members h t"
    by (auto simp: walk_of_def other_of_def)
  then have n: "members ?h' (length h) = naive_intersection (members h s) (members h t)"
    unfolding m ks naive_intersection_def by auto
  have "Intersection ks s t h = Inr (length h, ?h')"
    using assms r by (rule Intersection_eq)
  moreover have "Len ?w h = Inr (fcard (members h ?w), h)" "Len ?o h = Inr (fcard (members h ?o), h)"
    using rw ro by (simp_all add: Len_eq)
  moreover have "fcard (members h ?w) \<le> fcard (members h ?o)"
    by (simp add: walk_of_def other_of_def)
  ultimately show "\<exists>u h' n m. Intersection ks s t h = Inr (u, h') \<and>
              Len ?w h = Inr (n, h) \<and> Len ?o h = Inr (m, h) \<and> n \<le> m \<and>
              members h' u = ffilter (\<lambda>k. k |\<in>| members h ?o) (fset_of_list ks) \<and>
              members h' u = naive_intersection (members h s) (members h t)"
    using m n by blast
next
  assume "\<not> range_of (set_m (h ! walk_of h s t)) ks"
  with assms show "Intersection ks s t h = Inl NotAnIterationOrder"
    by (rule Intersection_bad_order)
next
  show "walk_of h s t = s \<and> other_of h s t = t \<or> walk_of h s t = t \<and> other_of h s t = s"
    by (simp add: walk_of_def other_of_def)
qed

theorem Intersection_refines_naive_witness:
  "readable example_heap 0 \<and> readable example_heap 1 \<and>
   walk_of example_heap 0 1 = 0 \<and> walk_of example_heap 1 0 = 0 \<and>
   range_of (set_m (example_heap ! 0)) [3, 2, 1] \<and>
   (\<exists>u h'. Intersection [3, 2, 1] 0 1 example_heap = Inr (u, h') \<and> members h' u = {|1, 2|}) \<and>
   (\<exists>u h'. Intersection [3, 2, 1] 1 0 example_heap = Inr (u, h') \<and> members h' u = {|1, 2|}) \<and>
   Intersection [1, 2, 4, 5] 0 1 example_heap = Inl NotAnIterationOrder"
proof -
  have a: "readable example_heap 0" and b: "readable example_heap 1"
    by (rule example_readable)+
  have w: "walk_of example_heap 0 1 = 0" "walk_of example_heap 1 0 = 0"
    by (simp_all add: walk_of_def example_members fcard_finsert_if)
  have c: "range_of (set_m (example_heap ! 0)) [3, 2, 1]"
    by (auto simp: example_heap_def range_of_def)
  have d: "\<not> range_of (set_m (example_heap ! 0)) [1, 2, 4, 5]"
  proof
    assume "range_of (set_m (example_heap ! 0)) [1, 2, 4, 5]"
    then have "fset_of_list [1, 2, 4, 5] = members example_heap 0"
      by (simp add: range_of_def members_def)
    then have "(3::int) |\<in>| fset_of_list [1, 2, 4, 5]"
      by (simp only: example_members) simp
    then show False by simp
  qed
  have n: "naive_intersection (members example_heap 0) (members example_heap 1) = {|1, 2|}"
    "naive_intersection (members example_heap 1) (members example_heap 0) = {|1, 2|}"
    unfolding example_members naive_intersection_def by auto
  have "\<exists>u h'. Intersection [3, 2, 1] 0 1 example_heap = Inr (u, h') \<and> members h' u = {|1, 2|}"
    using Intersection_refines_naive [OF a b, of "[3, 2, 1]"] c w n by auto
  moreover have "\<exists>u h'. Intersection [3, 2, 1] 1 0 example_heap = Inr (u, h') \<and> members h' u = {|1, 2|}"
    using Intersection_refines_naive [OF b a, of "[3, 2, 1]"] c w n by auto
  moreover have "Intersection [1, 2, 4, 5] 0 1 example_heap = Inl NotAnIterationOrder"
    using Intersection_refines_naive [OF a b, of "[1, 2, 4, 5]"] d w by auto
  ultimately show ?thesis using a b c w by blast
qed

text \<open>
  Claim C3. For all sets \<open>s\<close> and \<open>t\<close> (possibly the same object) that nobody holds
  exclusively, and every order \<open>ks\<close> in which the runtime may enumerate \<open>s.m\<close>,
  \<open>s.Difference(t)\<close> returns a set \<open>u\<close> whose members are exactly the members of \<open>s\<close>
  that are not members of \<open>t\<close>: \<open>u.Has(x)\<close> returns true if and only if \<open>s.Has(x)\<close>
  returned true and \<open>t.Has(x)\<close> returned false.
\<close>

theorem Difference_members:
  assumes "readable h s" and "readable h t" and "range_of (set_m (h ! s)) ks"
  shows "\<exists>u h'. Difference ks s t h = Inr (u, h') \<and>
           members h' u = members h s |-| members h t \<and>
           (\<forall>x. Has u x h' =
              Inr (Has s x h = Inr (True, h) \<and> Has t x h = Inr (False, h), h'))"
proof -
  let ?mp = "fold (\<lambda>k mp. if k |\<in>| members h t then mp else fmupd k () mp) ks fmempty"
  let ?h' = "h @ [fresh ?mp]"
  have ks: "fset_of_list ks = members h s"
    using assms(3) by (simp add: range_of_def members_def)
  have m: "members ?h' (length h) = members h s |-| members h t"
    by (auto simp: fmdom_fold_drop ks)
  have "Difference ks s t h = Inr (length h, ?h')"
    using assms by (rule Difference_eq)
  moreover have "Has (length h) x ?h' =
      Inr (Has s x h = Inr (True, h) \<and> Has t x h = Inr (False, h), ?h')" for x
    using assms(1,2) m by (simp add: Has_eq)
  ultimately show ?thesis using m by blast
qed

theorem Difference_members_witness:
  "readable example_heap 0 \<and> readable example_heap 1 \<and>
   range_of (set_m (example_heap ! 0)) [3, 1, 2] \<and>
   (\<exists>u h'. Difference [3, 1, 2] 0 1 example_heap = Inr (u, h') \<and>
      members h' u = {|3|} \<and>
      Has u 3 h' = Inr (True, h') \<and> Has u 1 h' = Inr (False, h') \<and>
      Has u 4 h' = Inr (False, h'))"
proof -
  have a: "readable example_heap 0" and b: "readable example_heap 1"
    by (rule example_readable)+
  note b' = example_readable(3)
  have c: "range_of (set_m (example_heap ! 0)) [3, 1, 2]"
    by (auto simp: example_heap_def range_of_def)
  from Difference_members [OF a b c] obtain u h' where
    d: "Difference [3, 1, 2] 0 1 example_heap = Inr (u, h')"
    and m: "members h' u = members example_heap 0 |-| members example_heap 1"
    and e: "\<forall>x. Has u x h' = Inr (Has 0 x example_heap = Inr (True, example_heap) \<and>
              Has 1 x example_heap = Inr (False, example_heap), h')"
    by blast
  have "members h' u = {|3|}"
    unfolding m example_members by auto
  moreover have "Has u 3 h' = Inr (True, h')" "Has u 1 h' = Inr (False, h')"
      "Has u 4 h' = Inr (False, h')"
    unfolding e [rule_format] by (simp_all add: Has_eq a b' example_members)
  ultimately show ?thesis using a b c d by blast
qed

text \<open>
  Claim C4. Union is commutative up to \<open>Equal\<close>. For all sets \<open>s\<close> and \<open>t\<close> that nobody
  holds exclusively and all orders in which the runtime may enumerate their maps in
  the two \<open>Union\<close> calls, \<open>s.Union(t)\<close> returns a set \<open>u\<close>, then \<open>t.Union(s)\<close> returns a
  set \<open>v\<close>, and \<open>u.Equal(v)\<close> returns true for every order in which the runtime may
  enumerate the map of \<open>v\<close> (there is such an order).
\<close>

theorem Union_commutes:
  assumes "readable h s" and "readable h t"
    and "range_of (set_m (h ! s)) ks1" and "range_of (set_m (h ! t)) ks2"
    and "range_of (set_m (h ! t)) ks3" and "range_of (set_m (h ! s)) ks4"
  shows "\<exists>u h1 v h2.
           Union_set ks1 ks2 s t h = Inr (u, h1) \<and>
           Union_set ks3 ks4 t s h1 = Inr (v, h2) \<and>
           (\<forall>ks. range_of (set_m (h2 ! v)) ks \<longrightarrow> Equal ks u v h2 = Inr (True, h2)) \<and>
           (\<exists>ks. range_of (set_m (h2 ! v)) ks)"
proof -
  have s: "s < length h" and t: "t < length h"
    using assms by (simp_all add: readable_def)
  let ?a = "fold (\<lambda>k. fmupd k ()) ks2 (set_m (h ! s))"
  let ?b = "fold (\<lambda>k. fmupd k ()) ks4 (set_m (h ! t))"
  let ?h1 = "h @ [fresh ?a]"
  let ?h2 = "?h1 @ [fresh ?b]"
  let ?u = "length h" and ?v = "Suc (length h)"
  have u1: "Union_set ks1 ks2 s t h = Inr (?u, ?h1)"
    using assms(1,2,3,4) by (rule Union_set_eq)
  have "Union_set ks3 ks4 t s ?h1 = Inr (length ?h1, ?h1 @ [fresh (fold (\<lambda>k. fmupd k ()) ks4 (set_m (?h1 ! t)))])"
    using assms s t by (intro Union_set_eq) (simp_all add: nth_append)
  then have u2: "Union_set ks3 ks4 t s ?h1 = Inr (?v, ?h2)"
    using t by (simp add: nth_append)
  have ru: "readable ?h2 ?u" and rv: "readable ?h2 ?v"
    by (simp_all add: readable_def nth_append fresh_def)
  have mu: "members ?h2 ?u = members h s |\<union>| members h t"
    using assms(4) by (simp add: members_def nth_append fmdom_fold_fmupd range_of_def)
  have mv: "members ?h2 ?v = members h t |\<union>| members h s"
    using assms(6) by (simp add: members_def nth_append fmdom_fold_fmupd range_of_def)
  have "Equal ks ?u ?v ?h2 = Inr (True, ?h2)" if "range_of (set_m (?h2 ! ?v)) ks" for ks
    using Equal_eq [OF ru rv that] unfolding mu mv by (simp add: funion_commute)
  with u1 u2 range_of_exists [of "set_m (?h2 ! ?v)"] show ?thesis by blast
qed

theorem Union_commutes_witness:
  "readable example_heap 0 \<and> readable example_heap 1 \<and>
   range_of (set_m (example_heap ! 0)) [1, 2, 3] \<and> range_of (set_m (example_heap ! 1)) [5, 4, 2, 1] \<and>
   range_of (set_m (example_heap ! 1)) [1, 2, 4, 5] \<and> range_of (set_m (example_heap ! 0)) [3, 2, 1] \<and>
   (\<exists>u h1 v h2.
      Union_set [1, 2, 3] [5, 4, 2, 1] 0 1 example_heap = Inr (u, h1) \<and>
      Union_set [1, 2, 4, 5] [3, 2, 1] 1 0 h1 = Inr (v, h2) \<and>
      (\<exists>ks. range_of (set_m (h2 ! v)) ks \<and> Equal ks u v h2 = Inr (True, h2)))"
proof -
  have a: "readable example_heap 0" and b: "readable example_heap 1"
    by (rule example_readable)+
  have c: "range_of (set_m (example_heap ! 0)) [1, 2, 3]"
    and d: "range_of (set_m (example_heap ! 1)) [5, 4, 2, 1]"
    and e: "range_of (set_m (example_heap ! 1)) [1, 2, 4, 5]"
    and f: "range_of (set_m (example_heap ! 0)) [3, 2, 1]"
    by (auto simp: example_heap_def range_of_def)
  from Union_commutes [OF a b c d e f] a b c d e f show ?thesis
    by blast
qed

text \<open>
  Claim C5. For every set \<open>s\<close> that nobody holds exclusively and every way \<open>ord\<close> in
  which the runtime may enumerate maps, calling \<open>s.PopAny()\<close> until the found flag is
  false ends (any fuel above the member count suffices) without error; the values
  returned with a true flag contain no value twice and are exactly the values for
  which \<open>s.Has\<close> returned true before the loop; afterwards \<open>s.Has\<close> returns false for
  every value and \<open>s.Len()\<close> returns 0.
\<close>

theorem PopAny_until_empty:
  assumes "readable h s" and "\<forall>mp. range_of mp (ord mp)" and "fcard (members h s) < n"
  shows "\<exists>out h'. drain n z ord s h = Some (Inr (out, h')) \<and>
           distinct out \<and>
           (\<forall>x. x \<in> set out \<longleftrightarrow> Has s x h = Inr (True, h)) \<and>
           (\<forall>x. Has s x h' = Inr (False, h')) \<and> Len s h' = Inr (0, h')"
proof -
  from drain_total [OF assms(2) assms(1) assms(3)] obtain out h' where
    d: "drain n z ord s h = Some (Inr (out, h'))" and "distinct out"
    and o: "fset_of_list out = members h s" and r: "readable h' s" and e: "members h' s = {||}"
    by blast
  have "x \<in> set out \<longleftrightarrow> Has s x h = Inr (True, h)" for x
    using assms(1) o by (simp add: Has_eq fset_of_list_elem [symmetric])
  moreover have "Has s x h' = Inr (False, h')" for x
    using r e by (simp add: Has_eq)
  moreover have "Len s h' = Inr (0, h')"
    using r e by (simp add: Len_eq)
  ultimately show ?thesis
    using d \<open>distinct out\<close> by blast
qed

theorem PopAny_until_empty_witness:
  "readable example_heap 0 \<and>
   (\<forall>mp :: (int, unit) fmap. range_of mp (sorted_list_of_fset (fmdom mp))) \<and>
   fcard (members example_heap 0) < 4 \<and>
   (\<exists>out h'. drain 4 0 (\<lambda>mp. sorted_list_of_fset (fmdom mp)) 0 example_heap = Some (Inr (out, h')) \<and>
      distinct out \<and> set out = {1, 2, 3} \<and> Len 0 h' = Inr (0, h'))"
proof -
  have a: "readable example_heap 0" by (rule example_readable)
  have b: "\<forall>mp :: (int, unit) fmap. range_of mp (sorted_list_of_fset (fmdom mp))"
    by (simp add: range_of_def) (simp add: sorted_list_of_fset.rep_eq)
  have c: "fcard (members example_heap 0) < 4"
    by (simp add: example_members fcard_finsert_if)
  from PopAny_until_empty [OF a b c, of 0] obtain out h' where
    1: "drain 4 0 (\<lambda>mp. sorted_list_of_fset (fmdom mp)) 0 example_heap = Some (Inr (out, h'))"
    and 2: "distinct out"
    and 3: "\<forall>x. x \<in> set out \<longleftrightarrow> Has 0 x example_heap = Inr (True, example_heap)"
    and 4: "Len 0 h' = Inr (0, h')"
    by blast
  have "set out = {1, 2, 3}"
    using 3 by (auto simp: Has_eq a example_members)
  with a b c 1 2 4 show ?thesis by blast
qed

text \<open>
  Claim C6. For every set \<open>s\<close> that nobody holds exclusively, \<open>s.Clone()\<close> returns a set
  \<open>c\<close> for which \<open>c.Equal(s)\<close> returns true right after the call, and whatever sequence
  of \<open>Insert\<close> and \<open>Delete\<close> calls is then applied to \<open>c\<close>, every call returns and
  \<open>s.Len()\<close> and \<open>s.Has(x)\<close>, for every \<open>x\<close>, return after the sequence what they
  returned before it.
\<close>

theorem Clone_equal_and_independent:
  assumes "readable h s" and "range_of (set_m (h ! s)) ks" and "range_of (set_m (h ! s)) ks'"
  shows "\<exists>c h1. Clone ks s h = Inr (c, h1) \<and> Equal ks' c s h1 = Inr (True, h1) \<and>
     (\<forall>ops. \<exists>h2. mutate c ops h1 = Inr ((), h2) \<and>
        (\<exists>n. Len s h1 = Inr (n, h1) \<and> Len s h2 = Inr (n, h2)) \<and>
        (\<forall>x. \<exists>b. Has s x h1 = Inr (b, h1) \<and> Has s x h2 = Inr (b, h2)))"
proof -
  have s: "s < length h"
    using assms(1) by (simp add: readable_def)
  let ?c = "length h"
  let ?h1 = "h @ [fresh (set_m (h ! s))]"
  have cl: "Clone ks s h = Inr (?c, ?h1)"
    using assms(1,2) by (rule Clone_eq)
  have rs: "readable ?h1 s" and rc: "readable ?h1 ?c"
    using assms(1) s by simp_all
  have "range_of (set_m (?h1 ! s)) ks'"
    using assms(3) s by (simp add: nth_append)
  from Equal_eq [OF rc rs this] s have eq: "Equal ks' ?c s ?h1 = Inr (True, ?h1)"
    by (simp add: members_def [of h])
  have "\<exists>h2. mutate ?c ops ?h1 = Inr ((), h2) \<and>
        (\<exists>n. Len s ?h1 = Inr (n, ?h1) \<and> Len s h2 = Inr (n, h2)) \<and>
        (\<forall>x. \<exists>b. Has s x ?h1 = Inr (b, ?h1) \<and> Has s x h2 = Inr (b, h2))" for ops
  proof -
    have "unlocked ?h1 ?c" by simp
    from mutate_eq [OF this] obtain f where f: "mutate ?c ops ?h1 = Inr ((), upd_m f ?c ?h1)"
      by blast
    let ?h2 = "upd_m f ?c ?h1"
    have ne: "s \<noteq> ?c" using s by simp
    have r2: "readable ?h2 s" using assms(1) s by simp
    have m2: "members ?h2 s = members ?h1 s" using s by simp
    have "Len s ?h1 = Inr (fcard (members ?h1 s), ?h1)" "Len s ?h2 = Inr (fcard (members ?h1 s), ?h2)"
      using rs r2 m2 by (simp_all add: Len_eq)
    moreover have "Has s x ?h1 = Inr (x |\<in>| members ?h1 s, ?h1)"
        "Has s x ?h2 = Inr (x |\<in>| members ?h1 s, ?h2)" for x
      using rs r2 m2 by (simp_all add: Has_eq)
    ultimately show ?thesis using f by blast
  qed
  with cl eq show ?thesis by blast
qed

theorem Clone_equal_and_independent_witness:
  "readable example_heap 0 \<and> range_of (set_m (example_heap ! 0)) [2, 1, 3] \<and>
   range_of (set_m (example_heap ! 0)) [3, 1, 2] \<and>
   (\<exists>c h1. Clone [2, 1, 3] 0 example_heap = Inr (c, h1) \<and>
      Equal [3, 1, 2] c 0 h1 = Inr (True, h1) \<and>
      (\<exists>h2. mutate c [InsertCall [7, 8], DeleteCall [1, 7]] h1 = Inr ((), h2) \<and>
         Len 0 h2 = Inr (3, h2) \<and> Has 0 1 h2 = Inr (True, h2) \<and> Has 0 8 h2 = Inr (False, h2)))"
proof -
  have a: "readable example_heap 0" by (rule example_readable)
  have b: "range_of (set_m (example_heap ! 0)) [2, 1, 3]"
    and c: "range_of (set_m (example_heap ! 0)) [3, 1, 2]"
    by (auto simp: example_heap_def range_of_def)
  from Clone_equal_and_independent [OF a b c] obtain cl h1 where
    1: "Clone [2, 1, 3] 0 example_heap = Inr (cl, h1)"
    and 2: "Equal [3, 1, 2] cl 0 h1 = Inr (True, h1)"
    and 3: "\<forall>ops. \<exists>h2. mutate cl ops h1 = Inr ((), h2) \<and>
        (\<exists>n. Len 0 h1 = Inr (n, h1) \<and> Len 0 h2 = Inr (n, h2)) \<and>
        (\<forall>x. \<exists>b. Has 0 x h1 = Inr (b, h1) \<and> Has 0 x h2 = Inr (b, h2))"
    by blast
  have h1: "h1 = example_heap @ [fresh (set_m (example_heap ! 0))]"
    using 1 by (simp add: Clone_eq [OF a b])
  have r1: "readable h1 0" and m1: "members h1 0 = {|1, 2, 3|}"
    unfolding h1 using a example_heap_length by (simp_all add: example_members)
  have l1: "Len 0 h1 = Inr (3, h1)"
    using r1 by (simp add: Len_eq m1 fcard_finsert_if)
  have x1: "Has 0 1 h1 = Inr (True, h1)" "Has 0 8 h1 = Inr (False, h1)"
    using r1 by (simp_all add: Has_eq m1)
  from 3 obtain h2 where
    4: "mutate cl [InsertCall [7, 8], DeleteCall [1, 7]] h1 = Inr ((), h2)"
    and 5: "\<exists>n. Len 0 h1 = Inr (n, h1) \<and> Len 0 h2 = Inr (n, h2)"
    and 6: "\<forall>x. \<exists>b. Has 0 x h1 = Inr (b, h1) \<and> Has 0 x h2 = Inr (b, h2)"
    by blast
  from 5 l1 have "Len 0 h2 = Inr (3, h2)" by auto
  moreover from 6 [rule_format, of 1] x1(1) have "Has 0 1 h2 = Inr (True, h2)" by auto
  moreover from 6 [rule_format, of 8] x1(2) have "Has 0 8 h2 = Inr (False, h2)" by auto
  ultimately show ?thesis using a b c 1 2 4 by blast
qed

text \<open>
  Claim C7. Inserting a value that is already a member is idempotent: for every set \<open>s\<close>
  whose lock is free and every \<open>x\<close> for which \<open>s.Has(x)\<close> returns true,
  \<open>s.Insert(x)\<close> returns, \<open>s.Len()\<close> returns the same count after the call as before,
  and \<open>s.Has(x)\<close> still returns true.
\<close>

theorem Insert_idempotent:
  assumes "unlocked h s" and "Has s x h = Inr (True, h)"
  shows "\<exists>h' n. Insert s [x] h = Inr ((), h') \<and>
           Len s h = Inr (n, h) \<and> Len s h' = Inr (n, h') \<and>
           Has s x h' = Inr (True, h')"
proof -
  let ?h' = "upd_m (fold (\<lambda>x. fmupd x ()) [x]) s h"
  have r: "readable h s" and s: "s < length h"
    using assms(1) by (simp_all add: unlocked_def readable_def)
  have x: "x |\<in>| members h s"
    using assms(2) r by (simp add: Has_eq)
  then have m: "members ?h' s = members h s"
    using s by (auto simp: members_def)
  have "Insert s [x] h = Inr ((), ?h')"
    using assms(1) by (rule Insert_eq)
  moreover have "Len s h = Inr (fcard (members h s), h)"
    using r by (rule Len_eq)
  moreover have "Len s ?h' = Inr (fcard (members h s), ?h')"
    using r m by (simp add: Len_eq)
  moreover have "Has s x ?h' = Inr (True, ?h')"
    using r m x by (simp add: Has_eq)
  ultimately show ?thesis by blast
qed

theorem Insert_idempotent_witness:
  "unlocked example_heap 0 \<and> Has 0 2 example_heap = Inr (True, example_heap) \<and>
   (\<exists>h' n. Insert 0 [2] example_heap = Inr ((), h') \<and>
      Len 0 example_heap = Inr (n, example_heap) \<and> Len 0 h' = Inr (n, h') \<and>
      Has 0 2 h' = Inr (True, h'))"
proof -
  have a: "unlocked example_heap 0" by (rule example_unlocked)
  have b: "Has 0 2 example_heap = Inr (True, example_heap)"
    by (simp add: Has_eq example_readable example_members)
  from a b Insert_idempotent [OF a b] show ?thesis by blast
qed

text \<open>
  Claim C8. For an empty set \<open>e\<close> (its map has no key, as after \<open>New()\<close>) with no
  exclusive holder of its lock: \<open>e.Len()\<close> returns 0; \<open>e.PopAny()\<close> returns the zero
  value \<open>z\<close> of the element type and the flag false, whatever the runtime's iteration
  order; \<open>e.HasAll()\<close> with no argument returns true and \<open>e.HasAny()\<close> with no
  argument returns false. The last two hold for every set \<open>s\<close>, not only for an
  empty one. None of these calls changes the heap.
\<close>

theorem empty_set_edge_cases:
  assumes "readable h e" and "set_m (h ! e) = fmempty" and "readable h s"
  shows "Len e h = Inr (0, h) \<and>
         (\<forall>ks. range_of (set_m (h ! e)) ks \<longrightarrow> PopAny z ks e h = Inr ((z, False), h)) \<and>
         HasAll e [] h = Inr (True, h) \<and> HasAny e [] h = Inr (False, h) \<and>
         HasAll s [] h = Inr (True, h) \<and> HasAny s [] h = Inr (False, h)"
proof -
  have "Len e h = Inr (0, h)"
    using assms(1,2) by (simp add: Len_eq members_def)
  moreover have "PopAny z ks e h = Inr ((z, False), h)" if "range_of (set_m (h ! e)) ks" for ks
  proof -
    from that assms(2) have "ks = []"
      by (cases ks) (simp_all add: range_of_def)
    with that assms(1) show ?thesis
      by (simp add: PopAny_Nil)
  qed
  moreover have "HasAll e [] h = Inr (True, h)" "HasAny e [] h = Inr (False, h)"
    using assms(1) by (simp_all add: HasAll_eq HasAny_eq)
  moreover have "HasAll s [] h = Inr (True, h)" "HasAny s [] h = Inr (False, h)"
    using assms(3) by (simp_all add: HasAll_eq HasAny_eq)
  ultimately show ?thesis by blast
qed

theorem empty_set_edge_cases_witness:
  "New [] example_heap = Inr (2, example_heap @ [fresh fmempty]) \<and>
   readable (example_heap @ [fresh fmempty]) 2 \<and>
   set_m ((example_heap @ [fresh fmempty]) ! 2) = fmempty \<and>
   readable (example_heap @ [fresh fmempty]) 0 \<and>
   Len 2 (example_heap @ [fresh fmempty]) = Inr (0, example_heap @ [fresh fmempty]) \<and>
   PopAny 0 [] 2 (example_heap @ [fresh fmempty]) = Inr ((0, False), example_heap @ [fresh fmempty]) \<and>
   HasAll 2 [] (example_heap @ [fresh fmempty]) = Inr (True, example_heap @ [fresh fmempty]) \<and>
   HasAny 2 [] (example_heap @ [fresh fmempty]) = Inr (False, example_heap @ [fresh fmempty]) \<and>
   HasAll 0 [] (example_heap @ [fresh fmempty]) = Inr (True, example_heap @ [fresh fmempty]) \<and>
   HasAny 0 [] (example_heap @ [fresh fmempty]) = Inr (False, example_heap @ [fresh fmempty])"
proof -
  let ?h = "example_heap @ [fresh fmempty]"
  have n: "New [] example_heap = Inr (2, ?h)"
    by (simp add: New_eq) (simp add: example_heap_def)
  have a: "readable ?h 2"
    by (simp add: example_heap_def readable_def fresh_def)
  have b: "set_m (?h ! 2) = fmempty"
    by (simp add: example_heap_def)
  have c: "readable ?h 0"
    by (simp add: example_heap_def readable_def fresh_def)
  have d: "range_of (set_m (?h ! 2)) []"
    by (simp add: b range_of_def)
  from empty_set_edge_cases [OF a b c, of 0] n a b c d show ?thesis
    by blast
qed

text \<open>
  Claim C9. The claim is that a two-operand method called with the same set \<open>s\<close> as
  receiver and argument does not deadlock, because it does not acquire the lock of
  \<open>s\<close> twice in an incompatible way: it acquires it in a reentrant-safe way or it
  detects that the operands are the same. The code does neither; \<^verbatim>\<open>s.Equal(s)\<close> calls
  \<^verbatim>\<open>RLock\<close> on the one lock in its first statement and again in its second. On the
  set \<open>{1, 2, 3}\<close> of the example heap: with no other goroutine the call returns true;
  after its first statement the caller is the one reader of the lock; \<^verbatim>\<open>s.Insert(7)\<close>
  of another goroutine cannot take the lock while that reader holds it; once that
  \<^verbatim>\<open>Lock\<close> is queued, the second \<^verbatim>\<open>RLock\<close> of the caller is not granted; so
  \<^verbatim>\<open>s.Equal(s)\<close> with the writer queued between its first two statements never
  returns: the caller waits for the writer and the writer waits for the caller.
\<close>

theorem aliased_Equal_waits_behind_queued_writer:
  "Equal [1, 2, 3] 0 0 example_heap = Inr (True, example_heap) \<and>
   RLock 0 example_heap = Inr ((), with_reader 0 example_heap) \<and>
   readers (set_mux (with_reader 0 example_heap ! 0)) = 1 \<and>
   Insert 0 [7] (with_reader 0 example_heap) = Inl Blocked \<and>
   Lock_by_other 0 (with_reader 0 example_heap)
     = Inr ((), with_writer 0 (with_reader 0 example_heap)) \<and>
   RLock 0 (with_writer 0 (with_reader 0 example_heap)) = Inl Blocked \<and>
   Equal_queued True [1, 2, 3] 0 0 example_heap = Inl Blocked \<and>
   Equal_queued False [1, 2, 3] 0 0 example_heap = Inr (True, example_heap)"
proof -
  have r: "readable example_heap 0" by (rule example_readable)
  have l: "0 < length example_heap" by (rule example_heap_length)
  have o: "range_of (set_m (example_heap ! 0)) [1, 2, 3]"
    by (auto simp: example_heap_def range_of_def)
  have 1: "Equal [1, 2, 3] 0 0 example_heap = Inr (True, example_heap)"
    using Equal_eq [OF r r o] by simp
  have 2: "RLock 0 example_heap = Inr ((), with_reader 0 example_heap)"
    using r by (rule RLock_eq)
  have 3: "readers (set_mux (with_reader 0 example_heap ! 0)) = 1"
    by (simp add: with_reader_def example_heap_def fresh_def)
  have 4: "Insert 0 [7] (with_reader 0 example_heap) = Inl Blocked"
    using l by (rule Insert_with_reader)
  have 5: "Lock_by_other 0 (with_reader 0 example_heap)
      = Inr ((), with_writer 0 (with_reader 0 example_heap))"
    using l by (simp add: Lock_by_other_eq)
  have 6: "RLock 0 (with_writer 0 (with_reader 0 example_heap)) = Inl Blocked"
    using l by (simp add: RLock_with_writer)
  have 7: "Equal_queued True [1, 2, 3] 0 0 example_heap = Inl Blocked"
    using 2 5 6 by (simp add: Equal_queued_def andThen_def)
  have 8: "Equal_queued False [1, 2, 3] 0 0 example_heap = Inr (True, example_heap)"
    using 1 by (simp add: Equal_queued_False)
  from 1 2 3 4 5 6 7 8 show ?thesis by blast
qed

text \<open>
  Claim C10. \<open>Insert\<close> and \<open>Delete\<close> change membership only for the values they are
  given: on a set whose lock is free both calls return; for every \<open>x\<close> that is not among
  the arguments \<open>s.Has(x)\<close> returns after either call what it returned before;
  every member before \<open>Insert\<close> is a member after it; and every member after
  \<open>Delete\<close> was a member before it.
\<close>

theorem Insert_Delete_frame:
  assumes "unlocked h s"
  shows "\<exists>h1 h2. Insert s vs h = Inr ((), h1) \<and> Delete s vs h = Inr ((), h2) \<and>
     (\<forall>x. x \<notin> set vs \<longrightarrow>
        (\<exists>b. Has s x h = Inr (b, h) \<and> Has s x h1 = Inr (b, h1) \<and> Has s x h2 = Inr (b, h2))) \<and>
     (\<forall>x. Has s x h = Inr (True, h) \<longrightarrow> Has s x h1 = Inr (True, h1)) \<and>
     (\<forall>x. Has s x h2 = Inr (True, h2) \<longrightarrow> Has s x h = Inr (True, h))"
proof -
  let ?h1 = "upd_m (fold (\<lambda>x. fmupd x ()) vs) s h"
  let ?h2 = "upd_m (fold fmdrop vs) s h"
  have r: "readable h s" and s: "s < length h"
    using assms by (simp_all add: unlocked_def readable_def)
  have m1: "members ?h1 s = members h s |\<union>| fset_of_list vs"
    using s by (simp add: fmdom_fold_fmupd members_def)
  have m2: "members ?h2 s = members h s |-| fset_of_list vs"
    using s by (simp add: fmdom_fold_fmdrop members_def)
  have "Insert s vs h = Inr ((), ?h1)"
    using assms by (rule Insert_eq)
  moreover have "Delete s vs h = Inr ((), ?h2)"
    using assms by (rule Delete_eq)
  moreover have "\<forall>x. x \<notin> set vs \<longrightarrow>
      (\<exists>b. Has s x h = Inr (b, h) \<and> Has s x ?h1 = Inr (b, ?h1) \<and> Has s x ?h2 = Inr (b, ?h2))"
    using r m1 m2 by (simp add: Has_eq fset_of_list_elem)
  moreover have "\<forall>x. Has s x h = Inr (True, h) \<longrightarrow> Has s x ?h1 = Inr (True, ?h1)"
    using r m1 by (simp add: Has_eq)
  moreover have "\<forall>x. Has s x ?h2 = Inr (True, ?h2) \<longrightarrow> Has s x h = Inr (True, h)"
    using r m2 by (simp add: Has_eq)
  ultimately show ?thesis by blast
qed

theorem Insert_Delete_frame_witness:
  "unlocked example_heap 0 \<and>
   (\<exists>h1 h2. Insert 0 [3, 7] example_heap = Inr ((), h1) \<and>
      Delete 0 [3, 7] example_heap = Inr ((), h2) \<and>
      Has 0 1 h1 = Inr (True, h1) \<and> Has 0 1 h2 = Inr (True, h2) \<and>
      Has 0 9 h1 = Inr (False, h1) \<and> Has 0 9 h2 = Inr (False, h2))"
proof -
  have a: "unlocked example_heap 0" by (rule example_unlocked)
  have b: "Has 0 1 example_heap = Inr (True, example_heap)"
    "Has 0 9 example_heap = Inr (False, example_heap)"
    by (simp_all add: Has_eq example_readable example_members)
  from Insert_Delete_frame [OF a, of "[3, 7]"] obtain h1 h2 where
    "Insert 0 [3, 7] example_heap = Inr ((), h1)"
    "Delete 0 [3, 7] example_heap = Inr ((), h2)"
    "\<forall>x. x \<notin> set [3, 7] \<longrightarrow>
        (\<exists>b. Has 0 x example_heap = Inr (b, example_heap) \<and> Has 0 x h1 = Inr (b, h1) \<and>
          Has 0 x h2 = Inr (b, h2))"
    by blast
  moreover from this(3) have "(\<exists>b. Has 0 1 example_heap = Inr (b, example_heap) \<and> Has 0 1 h1 = Inr (b, h1) \<and>
          Has 0 1 h2 = Inr (b, h2))" "(\<exists>b. Has 0 9 example_heap = Inr (b, example_heap) \<and> Has 0 9 h1 = Inr (b, h1) \<and>
          Has 0 9 h2 = Inr (b, h2))" by simp_all
  ultimately show ?thesis using a b by auto
qed

end
